theory Spec2Isabelle
  imports Complex_Main "HOL-Library.Multiset" "HOL-Library.AList"
begin

section \<open>Strings\<close>

text \<open>
  JavaScript strings are modelled as \<open>string\<close>; the characters the code inspects
  (letters, digits, separators) are ASCII, and \<open>toLowerCase\<close> folds exactly the
  ASCII capitals.
\<close>

definition toLowerCase_char :: "char \<Rightarrow> char" where
  "toLowerCase_char c =
     (case map_of (zip ''ABCDEFGHIJKLMNOPQRSTUVWXYZ'' ''abcdefghijklmnopqrstuvwxyz'') c of
        None \<Rightarrow> c | Some l \<Rightarrow> l)"

definition toUpperCase_char :: "char \<Rightarrow> char" where
  "toUpperCase_char c =
     (case map_of (zip ''abcdefghijklmnopqrstuvwxyz'' ''ABCDEFGHIJKLMNOPQRSTUVWXYZ'') c of
        None \<Rightarrow> c | Some u \<Rightarrow> u)"

definition toLowerCase :: "string \<Rightarrow> string" where
  "toLowerCase s = map toLowerCase_char s"

text \<open>\<open>s.startsWith(k)\<close> and \<open>s.includes(k)\<close>.\<close>

fun startsWith :: "string \<Rightarrow> string \<Rightarrow> bool" where
  "startsWith s [] = True"
| "startsWith [] (k # ks) = False"
| "startsWith (c # cs) (k # ks) = (if c = k then startsWith cs ks else False)"

fun includes_str :: "string \<Rightarrow> string \<Rightarrow> bool" where
  "includes_str [] kw = startsWith [] kw"
| "includes_str (c # cs) kw = (if startsWith (c # cs) kw then True else includes_str cs kw)"

text \<open>\<open>s.split(d)\<close> for a one-character separator: the empty string gives one empty piece.\<close>

fun split_char :: "char \<Rightarrow> string \<Rightarrow> string list" where
  "split_char d [] = [[]]"
| "split_char d (c # cs) =
     (if c = d then [] # split_char d cs
      else (case split_char d cs of [] \<Rightarrow> [[c]] | p # ps \<Rightarrow> (c # p) # ps))"

text \<open>Decimal rendering of a non-negative integer, and \<open>padStart(2, '0')\<close>.\<close>

definition digit_char :: "nat \<Rightarrow> char" where
  "digit_char d = ''0123456789'' ! d"

fun toString_nat :: "nat \<Rightarrow> string" where
  "toString_nat n =
     (if n < 10 then [digit_char n] else toString_nat (n div 10) @ [digit_char (n mod 10)])"

definition padStart2 :: "string \<Rightarrow> string" where
  "padStart2 s = (if length s < 2 then replicate (2 - length s) CHR ''0'' @ s else s)"

section \<open>Regular expressions\<close>

text \<open>
  The fragment of ECMAScript regular expressions the sources use: literals, character
  classes, sequence, alternation, greedy \<open>?\<close>, greedy bounded and unbounded repetition
  of a character class, capture groups and \<open>$\<close>.  The matcher returns every way to
  match at the start of the input, in the order a backtracking engine tries them, as the
  remaining input with the captured groups; the flag argument is the \<open>i\<close> flag.
\<close>

datatype cls = In string | NotIn string

datatype rx =
    Lit string
  | Cls cls
  | Seq rx rx
  | Alt rx rx
  | Opt rx
  | Rep cls nat "nat option"
  | Grp rx
  | Eol

text \<open>The classes \<open>\d\<close>, \<open>[^\d]\<close>, \<open>\s\<close> and \<open>.\<close> (any character but a line end).\<close>

definition digit_chars :: string where
  "digit_chars = ''0123456789''"

definition space_chars :: string where
  "space_chars = [CHR '' '', CHR 0x09, CHR 0x0A, CHR 0x0B, CHR 0x0C, CHR 0x0D]"

definition digit :: cls where
  "digit = In digit_chars"

definition non_digit :: cls where
  "non_digit = NotIn digit_chars"

definition space :: cls where
  "space = In space_chars"

definition dot :: cls where
  "dot = NotIn [CHR 0x0A, CHR 0x0D]"

text \<open>
  With the \<open>i\<close> flag two characters match when they agree after case folding, and a
  character is in a class when the class holds it in either case.
\<close>

definition chr_eq :: "bool \<Rightarrow> char \<Rightarrow> char \<Rightarrow> bool" where
  "chr_eq ci a b =
     (if a = b then True
      else if ci then toLowerCase_char a = toLowerCase_char b else False)"

definition in_chars :: "bool \<Rightarrow> string \<Rightarrow> char \<Rightarrow> bool" where
  "in_chars ci cs c =
     (if c \<in> set cs then True
      else if ci then (if toLowerCase_char c \<in> set cs then True
                       else toUpperCase_char c \<in> set cs)
      else False)"

fun cls_ok :: "bool \<Rightarrow> cls \<Rightarrow> char \<Rightarrow> bool" where
  "cls_ok ci (In cs) c = in_chars ci cs c"
| "cls_ok ci (NotIn cs) c = (\<not> in_chars ci cs c)"

fun lit_ok :: "bool \<Rightarrow> string \<Rightarrow> string \<Rightarrow> bool" where
  "lit_ok ci [] s = True"
| "lit_ok ci (k # ks) [] = False"
| "lit_ok ci (k # ks) (c # cs) = (if chr_eq ci k c then lit_ok ci ks cs else False)"

fun rx_match :: "bool \<Rightarrow> rx \<Rightarrow> string \<Rightarrow> (string \<times> string list) list" where
  "rx_match ci (Lit l) s = (if lit_ok ci l s then [(drop (length l) s, [])] else [])"
| "rx_match ci (Cls k) s =
     (case s of [] \<Rightarrow> [] | c # cs \<Rightarrow> if cls_ok ci k c then [(cs, [])] else [])"
| "rx_match ci (Seq a b) s =
     concat (map (\<lambda>(r1, g1). map (\<lambda>(r2, g2). (r2, g1 @ g2)) (rx_match ci b r1))
                 (rx_match ci a s))"
| "rx_match ci (Alt a b) s = rx_match ci a s @ rx_match ci b s"
| "rx_match ci (Opt a) s = rx_match ci a s @ [(s, [])]"
| "rx_match ci (Rep k lo hi) s =
     (let n = length (takeWhile (cls_ok ci k) s);
          m = (case hi of None \<Rightarrow> n | Some h \<Rightarrow> min h n)
      in map (\<lambda>j. (drop j s, [])) (rev [lo ..< Suc m]))"
| "rx_match ci (Grp a) s =
     map (\<lambda>(r, g). (r, take (length s - length r) s # g)) (rx_match ci a s)"
| "rx_match ci Eol s = (if s = [] then [(s, [])] else [])"

text \<open>
  \<open>s.match(re)\<close> without the \<open>g\<close> flag: the leftmost start position with a match,
  and there the first match in backtracking order.  The result is the matched text followed
  by the groups (\<open>m[0]\<close>, \<open>m[1]\<close>, ...), or \<open>None\<close> for \<open>null\<close>.
\<close>

fun rx_exec :: "bool \<Rightarrow> rx \<Rightarrow> string \<Rightarrow> string list option" where
  "rx_exec ci r [] =
     (case rx_match ci r [] of [] \<Rightarrow> None | (rest, gs) # _ \<Rightarrow> Some ([] # gs))"
| "rx_exec ci r (c # cs) =
     (case rx_match ci r (c # cs) of
        [] \<Rightarrow> rx_exec ci r cs
      | (rest, gs) # _ \<Rightarrow> Some (take (length (c # cs) - length rest) (c # cs) # gs))"

definition rx_test :: "bool \<Rightarrow> rx \<Rightarrow> string \<Rightarrow> bool" where
  "rx_test ci r s = (rx_exec ci r s \<noteq> None)"

abbreviation star :: "cls \<Rightarrow> rx" where "star k \<equiv> Rep k 0 None"
abbreviation plus_rx :: "cls \<Rightarrow> rx" where "plus_rx k \<equiv> Rep k 1 None"

fun seqs :: "rx list \<Rightarrow> rx" where
  "seqs [] = Lit []"
| "seqs [r] = r"
| "seqs (r # rs) = Seq r (seqs rs)"

fun alts :: "rx list \<Rightarrow> rx" where
  "alts [] = Cls (In [])"
| "alts [r] = r"
| "alts (r # rs) = Alt r (alts rs)"

section \<open>Sorting with a comparator\<close>

text \<open>
  \<open>Array.prototype.sort(cmp)\<close> is stable, and for a comparator that is a total preorder
  the sorted array is unique: the stable insertion sort below computes it.  An element
  \<open>a\<close> stays before \<open>b\<close> when \<open>cmp(a, b) \<le> 0\<close>.
\<close>

fun insert_by :: "('a \<Rightarrow> 'a \<Rightarrow> 'b::{zero,ord}) \<Rightarrow> 'a \<Rightarrow> 'a list \<Rightarrow> 'a list" where
  "insert_by cmp x [] = [x]"
| "insert_by cmp x (y # ys) = (if cmp x y \<le> 0 then x # y # ys else y # insert_by cmp x ys)"

definition js_sort :: "('a \<Rightarrow> 'a \<Rightarrow> 'b::{zero,ord}) \<Rightarrow> 'a list \<Rightarrow> 'a list" where
  "js_sort cmp xs = foldr (insert_by cmp) xs []"

section \<open>Premiumize: file selection\<close>

text \<open>A file of a torrent as \<open>getFileList\<close> builds it.\<close>

record file_entry =
  path :: string
  size_f :: int
  link :: string
  stream_link :: string
  isVideo :: bool
  isSubtitle :: bool
  extension :: string

text \<open>
  \<open>getFileList\<close> maps each item of the provider's \<open>content\<close> array to a file:
  \<open>stream_link\<close> falls back to \<open>link\<close>, the flags test the path's extension and
  \<open>extension\<close> is the lower-cased text after the last dot.
\<close>

record content_item =
  c_path :: string
  c_size :: int
  c_link :: string
  c_stream_link :: "string option"

definition videoExt :: rx where
  "videoExt = seqs [Lit ''.'', alts [Lit ''mkv'', Lit ''mp4'', Lit ''avi'', Lit ''mov'',
                                     Lit ''wmv'', Lit ''m4v'', Lit ''webm''], Eol]"

definition subtitleExt :: rx where
  "subtitleExt = seqs [Lit ''.'', alts [Lit ''srt'', Lit ''sub'', Lit ''ass'', Lit ''ssa'',
                                        Lit ''vtt''], Eol]"

definition file_of_content :: "content_item \<Rightarrow> file_entry" where
  "file_of_content file =
     \<lparr> path = c_path file,
       size_f = c_size file,
       link = c_link file,
       stream_link = (case c_stream_link file of
                        None \<Rightarrow> c_link file
                      | Some l \<Rightarrow> if l = [] then c_link file else l),
       isVideo = rx_test True videoExt (c_path file),
       isSubtitle = rx_test True subtitleExt (c_path file),
       extension = toLowerCase (last (split_char CHR ''.'' (c_path file))) \<rparr>"

text \<open>A file of the given path and size in MB, as \<open>getFileList\<close> would list it.\<close>

definition listed_file :: "string \<Rightarrow> int \<Rightarrow> file_entry" where
  "listed_file p mb = file_of_content
     \<lparr> c_path = p, c_size = mb * 1048576, c_link = ''https://dl/'' @ p,
       c_stream_link = None \<rparr>"

text \<open>\<open>scoreMovieFile\<close>: the score is built up by successive updates.\<close>

definition badKeywords :: "string list" where
  "badKeywords = [''sample'', ''trailer'', ''preview'', ''extras'', ''bonus'',
                  ''deleted'', ''behind'', ''making'', ''interview'', ''featurette'']"

definition scoreMovieFile :: "file_entry \<Rightarrow> int" where
  "scoreMovieFile file =
     (let filename = toLowerCase (path file);
          score = 100;
          sizeMB = (of_int (size_f file) :: rat) / (1024 * 1024);
          score = (if sizeMB > 500 then score + 300 else score);
          score = (if sizeMB > 1000 then score + 200 else score);
          score = (if sizeMB > 2000 then score + 150 else score);
          score = (if sizeMB > 5000 then score + 100 else score);
          score = (if list_ex (\<lambda>kw. includes_str filename kw) badKeywords
                   then score - 800 else score);
          score = (if extension file = ''mkv'' then score + 50 else score);
          score = (if extension file = ''mp4'' then score + 40 else score);
          pathDepth = length (split_char CHR ''/'' (path file));
          score = (if pathDepth \<le> 2 then score + 100 else score)
      in score)"

text \<open>
  \<open>findBestMovieFile\<close>: the video files are paired with their score, sorted by score
  descending, and the first is returned (\<open>None\<close> is \<open>null\<close>).
\<close>

definition findBestMovieFile :: "file_entry list \<Rightarrow> (file_entry \<times> int) option" where
  "findBestMovieFile files =
     (let videoFiles = filter isVideo files in
      if length videoFiles = 0 then None
      else let scored = map (\<lambda>file. (file, scoreMovieFile file)) videoFiles;
               scored = js_sort (\<lambda>a b. snd b - snd a) scored
           in Some (hd scored))"

text \<open>
  \<open>findEpisodeFile\<close>.  The five exact patterns, the two loose patterns and the season
  pattern are built from the target numbers; all carry the \<open>i\<close> flag and are tested
  against the lower-cased path.
\<close>

definition episodePatterns :: "nat \<Rightarrow> nat \<Rightarrow> rx list" where
  "episodePatterns targetSeason targetEpisode =
     [ seqs [Lit ''s'', Lit (padStart2 (toString_nat targetSeason)),
             Opt (Cls (In (''.-'' @ space_chars))),
             Lit ''e'', Lit (padStart2 (toString_nat targetEpisode)), Cls non_digit],
       seqs [Lit ''s'', Lit (toString_nat targetSeason),
             Lit ''e'', Lit (toString_nat targetEpisode)],
       seqs [Lit ''season'', star space, Lit (toString_nat targetSeason), star dot,
             Lit ''episode'', star space, Lit (toString_nat targetEpisode)],
       seqs [Lit (toString_nat targetSeason), Lit ''x'',
             Lit (padStart2 (toString_nat targetEpisode))],
       seqs [Cls non_digit, Lit (toString_nat targetSeason),
             Lit (padStart2 (toString_nat targetEpisode)), Cls non_digit] ]"

definition loosePatterns :: "nat \<Rightarrow> nat \<Rightarrow> rx list" where
  "loosePatterns targetSeason targetEpisode =
     [ seqs [Lit ''s'', Lit (padStart2 (toString_nat targetSeason)), star dot,
             Lit ''e'', Lit (padStart2 (toString_nat targetEpisode))],
       seqs [Lit ''season'', star dot, Lit (toString_nat targetSeason), star dot,
             Lit ''episode'', star dot, Lit (toString_nat targetEpisode)] ]"

definition seasonPattern :: "nat \<Rightarrow> rx" where
  "seasonPattern targetSeason =
     Alt (seqs [Lit ''season'', star space, Lit (toString_nat targetSeason)])
         (seqs [Lit ''s'', Lit (padStart2 (toString_nat targetSeason))])"

definition sampleOrTrailer :: rx where
  "sampleOrTrailer = Alt (Lit ''sample'') (Lit ''trailer'')"

text \<open>The bodies of the three passes, for one file.\<close>

definition exact_match :: "nat \<Rightarrow> nat \<Rightarrow> file_entry \<Rightarrow> bool" where
  "exact_match targetSeason targetEpisode file =
     (let filename = toLowerCase (path file)
      in list_ex (\<lambda>pattern. rx_test True pattern filename)
           (episodePatterns targetSeason targetEpisode))"

definition loose_match :: "nat \<Rightarrow> nat \<Rightarrow> file_entry \<Rightarrow> bool" where
  "loose_match targetSeason targetEpisode file =
     (let filename = toLowerCase (path file)
      in if rx_test True sampleOrTrailer filename then False
         else list_ex (\<lambda>pattern. rx_test True pattern filename)
                (loosePatterns targetSeason targetEpisode))"

definition season_match :: "nat \<Rightarrow> file_entry \<Rightarrow> bool" where
  "season_match targetSeason file =
     (let filename = toLowerCase (path file)
      in rx_test True (seasonPattern targetSeason) filename
         \<and> \<not> rx_test True sampleOrTrailer filename)"

text \<open>\<open>xs.reduce(f)\<close> without an initial value, on a non-empty array.\<close>

definition reduce :: "('a \<Rightarrow> 'a \<Rightarrow> 'a) \<Rightarrow> 'a list \<Rightarrow> 'a" where
  "reduce f xs = foldl f (hd xs) (tl xs)"

definition findEpisodeFile :: "file_entry list \<Rightarrow> nat \<Rightarrow> nat \<Rightarrow> file_entry option" where
  "findEpisodeFile files targetSeason targetEpisode =
     (let videoFiles = filter isVideo files in
      case find (exact_match targetSeason targetEpisode) videoFiles of
        Some file \<Rightarrow> Some file
      | None \<Rightarrow>
         (case find (loose_match targetSeason targetEpisode) videoFiles of
            Some file \<Rightarrow> Some file
          | None \<Rightarrow>
             (let seasonPackFiles = filter (season_match targetSeason) videoFiles in
              if length seasonPackFiles > 0
              then Some (reduce (\<lambda>largest file.
                                   if size_f file > size_f largest then file else largest)
                                seasonPackFiles)
              else None)))"

section \<open>Premiumize: batched cache check\<close>

text \<open>
  \<open>Premiumize.checkCacheStatuses\<close>.  A value read from the provider's response array is a
  boolean, or \<open>undefined\<close> past the end of the array.  The result object maps a hash to its
  status; it is an association list in insertion order, and assigning to a key that is
  present replaces the value in place.
\<close>

datatype jsval = JBool bool | JUndefined

record cache_status =
  cached :: jsval
  files_c :: "file_entry list"
  fileCount :: nat
  service_c :: string

type_synonym cache_results = "(string \<times> cache_status) list"

text \<open>
  \<open>makeRequest\<close> is the provider: it either throws (after its own retries) or returns the
  parsed body, whose \<open>response\<close> field is an array or is absent.
\<close>

datatype reply = Throws | Data "bool list option"

definition batchSize :: nat where
  "batchSize = 99"

definition slice :: "nat \<Rightarrow> nat \<Rightarrow> 'a list \<Rightarrow> 'a list" where
  "slice a b xs = take (b - a) (drop a xs)"

text \<open>The first loop: \<open>for (i = 0; i < hashes.length; i += batchSize)\<close>.\<close>

function make_batches :: "nat \<Rightarrow> string list \<Rightarrow> string list list" where
  "make_batches i hashes =
     (if i < length hashes
      then slice i (i + batchSize) hashes # make_batches (i + batchSize) hashes
      else [])"
  by pat_completeness auto
termination
  by (relation "measure (\<lambda>(i, hashes). length hashes - i)") (auto simp: batchSize_def)

declare make_batches.simps [simp del]

definition response_at :: "bool list \<Rightarrow> nat \<Rightarrow> jsval" where
  "response_at response index =
     (if index < length response then JBool (response ! index) else JUndefined)"

text \<open>\<open>batch.forEach((hash, index) => results[hash] = {...})\<close>.\<close>

fun store_batch :: "string list \<Rightarrow> bool list \<Rightarrow> nat \<Rightarrow> cache_results \<Rightarrow> cache_results" where
  "store_batch [] response index results = results"
| "store_batch (hash # rest) response index results =
     store_batch rest response (Suc index)
       (AList.update hash
          \<lparr> cached = response_at response index, files_c = [], fileCount = 0,
            service_c = ''Premiumize'' \<rparr> results)"

text \<open>
  The second loop.  The state is the result object and the batches requested so far;
  \<open>request i batch\<close> is what the \<open>i\<close>-th call of \<open>makeRequest\<close> does.  An exception (the
  request throws, or indexing the absent \<open>response\<close> raises a TypeError) leaves the loop
  with \<open>None\<close>.
\<close>

fun run_batches ::
  "(nat \<Rightarrow> string list \<Rightarrow> reply) \<Rightarrow> nat \<Rightarrow> string list list \<Rightarrow> cache_results
     \<Rightarrow> string list list \<Rightarrow> cache_results option \<times> string list list" where
  "run_batches request i [] results issued = (Some results, issued)"
| "run_batches request i (batch # rest) results issued =
     (case request i batch of
        Throws \<Rightarrow> (None, issued @ [batch])
      | Data None \<Rightarrow> (None, issued @ [batch])
      | Data (Some response) \<Rightarrow>
          run_batches request (Suc i) rest (store_batch batch response 0 results)
            (issued @ [batch]))"

text \<open>
  The whole method: the \<open>catch\<close> returns the empty object.  The second component is the
  list of batches for which a request was issued.
\<close>

definition Premiumize_checkCacheStatuses ::
  "(nat \<Rightarrow> string list \<Rightarrow> reply) \<Rightarrow> string list \<Rightarrow> cache_results \<times> string list list" where
  "Premiumize_checkCacheStatuses request hashes =
     (let batches = make_batches 0 hashes in
      case run_batches request 0 batches [] [] of
        (Some results, issued) \<Rightarrow> (results, issued)
      | (None, issued) \<Rightarrow> ([], issued))"

text \<open>
  Vocabulary for the properties: the \<open>k\<close>-th batch of a hash list, the number of batches,
  whether a reply lets the loop go on, and the response array it carries.
\<close>

definition nth_batch :: "nat \<Rightarrow> string list \<Rightarrow> string list" where
  "nth_batch k hashes = slice (k * batchSize) (k * batchSize + batchSize) hashes"

definition batch_count :: "nat \<Rightarrow> nat" where
  "batch_count n = (n + (batchSize - 1)) div batchSize"

definition succeeded :: "reply \<Rightarrow> bool" where
  "succeeded r = (case r of Data (Some response) \<Rightarrow> True | _ \<Rightarrow> False)"

definition response_of :: "reply \<Rightarrow> bool list" where
  "response_of r = (case r of Data (Some response) \<Rightarrow> response | _ \<Rightarrow> [])"


text \<open>
  A list of one hundred hashes, a provider that reports every hash as cached, and one whose
  second request throws.
\<close>

definition hashes100 :: "string list" where
  "hashes100 = map toString_nat [0 ..< 100]"


definition second_fails :: "nat \<Rightarrow> string list \<Rightarrow> reply" where
  "second_fails k batch = (if k = 0 then Data (Some (map (\<lambda>hash. True) batch)) else Throws)"

section \<open>The stream endpoint\<close>

subsection \<open>Aggregation: \<open>getStreams\<close>\<close>

text \<open>
  An item of a backend's \<open>results\<close> array, tagged with the backend's name.  A field that
  is absent is the empty string: the code only tests the fields for truthiness.
\<close>

record api_result =
  r_title :: string
  r_filename :: string
  r_magnetLink :: string
  r_quality :: string
  r_size :: string
  r_source :: string

text \<open>A candidate as \<open>getStreams\<close> returns it.\<close>

record candidate =
  hash :: string
  magnetLink :: string
  filename :: string
  websiteTitle :: string
  quality :: string
  size_s :: string
  source :: string

text \<open>
  The patterns \<open>/btih:([a-f0-9]+)/i\<close>, \<open>/\d{3,4}p|4k|uhd|HDTS|CAM/i\<close> and
  \<open>/\d+(\.\d+)?\s*(GB|MB)/i\<close>.
\<close>

definition btihPattern :: rx where
  "btihPattern = Seq (Lit ''btih:'') (Grp (plus_rx (In ''abcdef0123456789'')))"

definition qualityPattern :: rx where
  "qualityPattern = alts [Seq (Rep digit 3 (Some 4)) (Lit ''p''), Lit ''4k'', Lit ''uhd'',
                          Lit ''HDTS'', Lit ''CAM'']"

definition sizePattern :: rx where
  "sizePattern = seqs [plus_rx digit, Opt (Grp (Seq (Lit ''.'') (plus_rx digit))), star space,
                       Grp (Alt (Lit ''GB'') (Lit ''MB''))]"

text \<open>\<open>s.match(re)?.[0] || ''\<close>: the matched text, or the empty string.\<close>

definition match0 :: "rx \<Rightarrow> string \<Rightarrow> string" where
  "match0 r s = (case rx_exec True r s of Some (m # groups) \<Rightarrow> m | _ \<Rightarrow> [])"

text \<open>
  \<open>stream.magnetLink.match(/btih:([a-f0-9]+)/i)?.[1]?.toLowerCase()\<close>, after the test
  that the link is present: \<open>None\<close> when no hash can be recovered.
\<close>

definition recover_hash :: "api_result \<Rightarrow> string option" where
  "recover_hash stream =
     (if r_magnetLink stream = [] then None
      else case rx_exec True btihPattern (r_magnetLink stream) of
             Some (m # g # groups) \<Rightarrow> if g = [] then None else Some (toLowerCase g)
           | _ \<Rightarrow> None)"

text \<open>\<open>s.split('\n')[0].trim()\<close>.\<close>

definition trim :: "string \<Rightarrow> string" where
  "trim s = rev (dropWhile (\<lambda>c. c \<in> set space_chars)
                  (rev (dropWhile (\<lambda>c. c \<in> set space_chars) s)))"

definition first_line :: "string \<Rightarrow> string" where
  "first_line s = takeWhile (\<lambda>c. c \<noteq> CHR 0x0A) s"

definition or_else :: "string \<Rightarrow> string \<Rightarrow> string" where
  "or_else a b = (if a = [] then b else a)"

definition make_candidate :: "string \<Rightarrow> api_result \<Rightarrow> candidate" where
  "make_candidate h stream =
     (let quality = or_else (r_quality stream) (match0 qualityPattern (r_title stream));
          size = or_else (r_size stream) (match0 sizePattern (r_title stream));
          filename = or_else (r_filename stream)
                       (or_else (trim (first_line (r_title stream))) ''Unknown'')
      in \<lparr> hash = h, magnetLink = r_magnetLink stream, filename = filename,
           websiteTitle = or_else (r_title stream) filename, quality = quality,
           size_s = size, source = or_else (r_source stream) ''Unknown'' \<rparr>)"

text \<open>
  The loop over the settled backend results.  The state is the set \<open>seenMagnets\<close> (kept
  as a list) and the array \<open>combinedResults\<close>.
\<close>

datatype 'a settled = Fulfilled 'a | Rejected

fun add_streams ::
  "api_result list \<Rightarrow> string list \<times> candidate list \<Rightarrow> string list \<times> candidate list" where
  "add_streams [] (seenMagnets, combinedResults) = (seenMagnets, combinedResults)"
| "add_streams (stream # rest) (seenMagnets, combinedResults) =
     (case recover_hash stream of
        None \<Rightarrow> add_streams rest (seenMagnets, combinedResults)
      | Some h \<Rightarrow>
          if h \<in> set seenMagnets then add_streams rest (seenMagnets, combinedResults)
          else add_streams rest
                 (seenMagnets @ [h], combinedResults @ [make_candidate h stream]))"

fun add_results ::
  "api_result list settled list \<Rightarrow> string list \<times> candidate list
     \<Rightarrow> string list \<times> candidate list" where
  "add_results [] st = st"
| "add_results (Fulfilled value # rest) st = add_results rest (add_streams value st)"
| "add_results (Rejected # rest) st = add_results rest st"

definition combine_results :: "api_result list settled list \<Rightarrow> candidate list" where
  "combine_results allResults = snd (add_results allResults ([], []))"

text \<open>
  Vocabulary for the properties: the candidates in processing order, the recoverable
  hashes among them (\<open>N\<close> is their number), and the number \<open>M\<close> of those whose hash
  already occurs at an earlier position.
\<close>

fun processing_order :: "api_result list settled list \<Rightarrow> api_result list" where
  "processing_order [] = []"
| "processing_order (Fulfilled value # rest) = value @ processing_order rest"
| "processing_order (Rejected # rest) = processing_order rest"

definition recovered :: "api_result list \<Rightarrow> string list" where
  "recovered streams = List.map_filter recover_hash streams"

definition repeats :: "string list \<Rightarrow> nat" where
  "repeats hs = length (filter (\<lambda>i. hs ! i \<in> set (take i hs)) [0 ..< length hs])"

subsection \<open>Merging a provider's cache check\<close>

text \<open>
  An entry of the map \<open>checkCacheStatuses(service, streams)\<close> builds: the provider's result
  spread into it, then the candidate's fields, then \<open>cached: result.cached !== false\<close>.
\<close>

record cache_entry =
  e_files :: "file_entry list"
  e_fileCount :: nat
  e_service :: string
  e_hash :: string
  e_magnetLink :: string
  e_filename :: string
  e_websiteTitle :: string
  e_quality :: string
  e_size :: string
  e_source :: string
  e_cached :: bool

definition make_entry :: "cache_status \<Rightarrow> string \<Rightarrow> candidate \<Rightarrow> cache_entry" where
  "make_entry result h stream =
     (let quality = or_else (quality stream) [];
          quality = (if quality = [] then match0 qualityPattern (filename stream) else quality);
          size = or_else (size_s stream) [];
          size = (if size = [] then match0 sizePattern (filename stream) else size)
      in \<lparr> e_files = files_c result, e_fileCount = fileCount result,
           e_service = service_c result,
           e_hash = h, e_magnetLink = magnetLink stream,
           e_filename = or_else (filename stream) ''Unknown'',
           e_websiteTitle = or_else (websiteTitle stream)
                              (or_else (filename stream) ''Unknown''),
           e_quality = quality, e_size = size,
           e_source = or_else (source stream) ''Unknown'',
           e_cached = (cached result \<noteq> JBool False) \<rparr>)"

type_synonym cache_map = "(string \<times> cache_entry) list"

text \<open>\<open>validStreams.forEach(...)\<close>, with \<open>results\<close> the provider's answer.\<close>

fun fill_cacheMap :: "cache_results \<Rightarrow> candidate list \<Rightarrow> cache_map \<Rightarrow> cache_map" where
  "fill_cacheMap results [] cacheMap = cacheMap"
| "fill_cacheMap results (stream # rest) cacheMap =
     (if hash stream = [] then fill_cacheMap results rest cacheMap
      else let h = toLowerCase (hash stream) in
           case map_of results h of
             None \<Rightarrow> fill_cacheMap results rest cacheMap
           | Some result \<Rightarrow>
               fill_cacheMap results rest (AList.update h (make_entry result h stream) cacheMap))"

text \<open>
  The provider is a function from the hash list to its result object, or \<open>None\<close> when it
  throws; the \<open>catch\<close> then returns the empty map.
\<close>

definition checkCacheStatuses ::
  "(string list \<Rightarrow> cache_results option) \<Rightarrow> candidate list \<Rightarrow> cache_map" where
  "checkCacheStatuses service streams =
     (if length streams = 0 then []
      else let validStreams = filter (\<lambda>stream. hash stream \<noteq> []) streams in
           if length validStreams = 0 then []
           else let hashes = map (\<lambda>stream. toLowerCase (hash stream)) validStreams in
                case service hashes of
                  None \<Rightarrow> []
                | Some results \<Rightarrow> fill_cacheMap results validStreams [])"

text \<open>
  The endpoint keeps the entries that have a hash and a truthy \<open>cached\<close>, and tags them
  with the provider's name.
\<close>

record service_stream =
  ss_stream :: cache_entry
  ss_service :: string
  ss_hash :: string

definition serviceStreams :: "string \<Rightarrow> cache_map \<Rightarrow> service_stream list" where
  "serviceStreams serviceName cacheMap =
     map (\<lambda>stream. \<lparr> ss_stream = stream, ss_service = serviceName,
                      ss_hash = toLowerCase (e_hash stream) \<rparr>)
         (filter (\<lambda>stream. e_hash stream \<noteq> [] \<and> e_cached stream) (map snd cacheMap))"

text \<open>
  Two backends that each return the same two torrents, the second backend with the hashes
  in capitals.
\<close>

definition first_hit :: api_result where
  "first_hit = \<lparr> r_title = ''Movie 1080p 2.1 GB'', r_filename = [],
       r_magnetLink = ''magnet:?xt=urn:btih:0123456789abcdef0123456789abcdef01234567'',
       r_quality = [], r_size = [], r_source = ''A'' \<rparr>"

definition other_hit :: api_result where
  "other_hit = \<lparr> r_title = ''Movie 720p 900 MB'', r_filename = [],
       r_magnetLink = ''magnet:?xt=urn:btih:89abcdef0123456789abcdef0123456789abcdef'',
       r_quality = [], r_size = [], r_source = ''A'' \<rparr>"

definition second_hit :: api_result where
  "second_hit = \<lparr> r_title = ''Movie.1080p'', r_filename = [],
       r_magnetLink = ''magnet:?xt=urn:btih:0123456789ABCDEF0123456789ABCDEF01234567'',
       r_quality = [], r_size = [], r_source = ''B'' \<rparr>"

definition other_second_hit :: api_result where
  "other_second_hit = \<lparr> r_title = ''Movie.720p'', r_filename = [],
       r_magnetLink = ''magnet:?xt=urn:btih:89ABCDEF0123456789ABCDEF0123456789ABCDEF'',
       r_quality = [], r_size = [], r_source = ''B'' \<rparr>"

definition two_backends :: "api_result list settled list" where
  "two_backends = [Fulfilled [first_hit, other_hit], Fulfilled [second_hit, other_second_hit]]"

text \<open>
  Two candidates, a provider that reports the first as cached and the second as not
  cached, and a provider whose result for the first carries no \<open>cached\<close> field.
\<close>

definition cand1 :: candidate where
  "cand1 = \<lparr> hash = ''ab12'', magnetLink = ''magnet:?xt=urn:btih:ab12'',
       filename = ''A.720p.mkv'', websiteTitle = ''A'', quality = [], size_s = ''1.4 GB'',
       source = ''X'' \<rparr>"

definition cand2 :: candidate where
  "cand2 = \<lparr> hash = ''cd34'', magnetLink = ''magnet:?xt=urn:btih:cd34'',
       filename = ''B.mkv'', websiteTitle = ''B'', quality = ''1080p'', size_s = ''2 GB'',
       source = ''Y'' \<rparr>"

definition answers :: "string list \<Rightarrow> cache_results option" where
  "answers hashes =
     Some [(''ab12'', \<lparr> cached = JBool True, files_c = [], fileCount = 0,
                       service_c = ''Premiumize'' \<rparr>),
           (''cd34'', \<lparr> cached = JBool False, files_c = [], fileCount = 0,
                       service_c = ''Premiumize'' \<rparr>)]"

definition no_flag :: "string list \<Rightarrow> cache_results option" where
  "no_flag hashes =
     Some [(''ab12'', \<lparr> cached = JUndefined, files_c = [], fileCount = 0,
                       service_c = ''Premiumize'' \<rparr>)]"

subsection \<open>Ranking\<close>

text \<open>
  A formatted stream of the response.  \<open>quality\<close> and \<open>size\<close> hold what \<open>parseQuality\<close> and
  \<open>parseSize\<close> (of the utility module) returned for the file name: the tier as an integer
  and the size in MB.
\<close>

record formatted_stream =
  f_name :: string
  f_title :: string
  f_url :: string
  f_service :: string
  f_quality :: int
  f_size :: rat

text \<open>Step 6 of the endpoint: sort by quality, then by size, and keep the first 50.\<close>

definition quick_cmp :: "formatted_stream \<Rightarrow> formatted_stream \<Rightarrow> rat" where
  "quick_cmp a b =
     (if f_quality a \<noteq> f_quality b then of_int (f_quality b) - of_int (f_quality a)
      else f_size b - f_size a)"

definition sortedStreams :: "formatted_stream list \<Rightarrow> formatted_stream list" where
  "sortedStreams formattedStreams = take 50 (js_sort quick_cmp formattedStreams)"

text \<open>
  \<open>sortStreams\<close>, which no code calls.  The ideal range of a tier has a lower bound and an
  upper bound that is \<open>Infinity\<close> for a tier outside the table.
\<close>

datatype bound = Fin rat | Infinity

definition idealSizeRanges :: "int \<Rightarrow> (rat \<times> bound) option" where
  "idealSizeRanges q =
     (if q = 2160 then Some (10000, Fin 80000)
      else if q = 1080 then Some (2000, Fin 16000)
      else if q = 720 then Some (1000, Fin 8000)
      else if q = 480 then Some (500, Fin 4000)
      else None)"

definition idealRange :: "int \<Rightarrow> rat \<times> bound" where
  "idealRange q = (case idealSizeRanges q of Some r \<Rightarrow> r | None \<Rightarrow> (0, Infinity))"

text \<open>
  \<open>getIdealScore\<close>.  With the upper bound \<open>Infinity\<close> the last \<open>return\<close> is not reached:
  every size is at most \<open>Infinity\<close>.
\<close>

fun getIdealScore :: "rat \<Rightarrow> rat \<times> bound \<Rightarrow> rat" where
  "getIdealScore sz (lo, Fin hi) =
     (if sz \<ge> lo \<and> sz \<le> hi then 0
      else if sz < lo then lo - sz
      else sz - hi)"
| "getIdealScore sz (lo, Infinity) =
     (if sz \<ge> lo then 0 else lo - sz)"

text \<open>The comparator of \<open>sortStreams\<close>, on the parsed quality and size of the two streams.\<close>

definition band_cmp :: "int \<Rightarrow> rat \<Rightarrow> int \<Rightarrow> rat \<Rightarrow> rat" where
  "band_cmp qualityA sizeA qualityB sizeB =
     (if qualityA \<noteq> qualityB then of_int qualityB - of_int qualityA
      else let ideal = idealRange qualityA;
               scoreA = getIdealScore sizeA ideal;
               scoreB = getIdealScore sizeB ideal
           in if scoreA \<noteq> scoreB then scoreA - scoreB
              else sizeB - sizeA)"

definition sortStreams ::
  "(string \<Rightarrow> int) \<Rightarrow> (string \<Rightarrow> rat) \<Rightarrow> formatted_stream list \<Rightarrow> formatted_stream list" where
  "sortStreams parseQuality parseSize streams =
     js_sort (\<lambda>a b. band_cmp (parseQuality (f_name a)) (parseSize (f_name a))
                              (parseQuality (f_name b)) (parseSize (f_name b)))
             streams"

text \<open>
  The order the ranking is said to produce, stated on the stored quality and size: each
  stream stands before every later one under the comparator of \<open>sortStreams\<close>.
\<close>

definition band_ordered :: "formatted_stream list \<Rightarrow> bool" where
  "band_ordered streams =
     sorted_wrt (\<lambda>a b. band_cmp (f_quality a) (f_size a) (f_quality b) (f_size b) \<le> 0)
                streams"

text \<open>
  Example streams: a 1080p stream of 3 GB, inside the ideal band, one of 20 GB, outside
  it, and two 720p streams of the same size from different providers.
\<close>

definition in_band :: formatted_stream where
  "in_band = \<lparr> f_name = ''1080P | 3 GB'', f_title = ''A'', f_url = ''u1'',
       f_service = ''Premiumize'', f_quality = 1080, f_size = 3000 \<rparr>"

definition oversized :: formatted_stream where
  "oversized = \<lparr> f_name = ''1080P | 20 GB'', f_title = ''B'', f_url = ''u2'',
       f_service = ''Premiumize'', f_quality = 1080, f_size = 20000 \<rparr>"

definition tie_one :: formatted_stream where
  "tie_one = \<lparr> f_name = ''720P | 1 GB'', f_title = ''C'', f_url = ''u3'',
       f_service = ''Premiumize'', f_quality = 720, f_size = 1000 \<rparr>"

definition tie_two :: formatted_stream where
  "tie_two = \<lparr> f_name = ''720P | 1 GB'', f_title = ''C'', f_url = ''u4'',
       f_service = ''TorBox'', f_quality = 720, f_size = 1000 \<rparr>"

section \<open>The resolve endpoint\<close>

text \<open>
  A call of a provider method returns a value or throws.  What is thrown is an object,
  with its \<open>message\<close> when that is a string, or \<open>null\<close>, or \<open>undefined\<close>: reading
  \<open>error.message\<close> of the last two throws a TypeError in turn.
\<close>

datatype thrown = Err "string option" | Thrown_null | Thrown_undefined

datatype 'a outcome = Returns 'a | Raises thrown

text \<open>
  A function of this program (the utility module's, or \<open>getValidStreamingUrl\<close>) gives a
  value or throws an \<open>Error\<close> object, of which the handler reads the message.
\<close>

datatype 'a computed = Value 'a | Threw "string option"

text \<open>The messages of the TypeErrors raised by reading a property of no object.\<close>

definition cannot_read :: "string \<Rightarrow> string \<Rightarrow> string" where
  "cannot_read what property =
     ''Cannot read properties of '' @ what @ '' (reading '' @ [CHR 0x27] @ property
       @ [CHR 0x27] @ '')''"

text \<open>
  A configured provider: the name of its constructor, the class \<open>instanceof\<close> finds, and
  its two resolution methods.  The arguments are the magnet link, the content type (when
  passed), the season and the episode; the result is the URL, or \<open>None\<close> for \<open>null\<close>.
\<close>

datatype service_class = RealDebrid | TorBox | Premiumize | OtherDebrid

record debrid_service =
  s_name :: string
  s_class :: service_class
  s_getStreamUrl :: "string \<Rightarrow> string option \<Rightarrow> nat option \<Rightarrow> nat option
                       \<Rightarrow> string option outcome"
  s_getCachedUrl :: "string \<Rightarrow> string option \<Rightarrow> nat option \<Rightarrow> nat option
                       \<Rightarrow> string option outcome"

text \<open>An entry of the fallback list stored under a content cache key.\<close>

record fallback_entry =
  fb_hash :: string
  fb_magnetLink :: string
  fb_filename :: string
  fb_websiteTitle :: string
  fb_quality :: string
  fb_size :: string
  fb_source :: string
  fb_service :: string

text \<open>The response of the handler: a redirect, or status 404 with a JSON body.\<close>

datatype response = Redirect string | Status404 string "string option"

text \<open>
  \<open>getValidStreamingUrl\<close>.  An exception of the provider with a string message is caught
  and gives \<open>null\<close>.  For an object without a string message \<open>error.message.includes\<close>
  throws inside the \<open>catch\<close> block, for \<open>null\<close> and \<open>undefined\<close> \<open>error.message\<close> does,
  and that TypeError leaves the function.
\<close>

definition getValidStreamingUrl ::
  "debrid_service \<Rightarrow> string \<Rightarrow> string \<Rightarrow> string \<Rightarrow> nat option \<Rightarrow> nat option
     \<Rightarrow> string option computed" where
  "getValidStreamingUrl service magnet h type season episode =
     (case (case s_class service of
              RealDebrid \<Rightarrow> s_getCachedUrl service magnet (Some type) season episode
            | TorBox \<Rightarrow> s_getStreamUrl service magnet None None None
            | Premiumize \<Rightarrow> s_getStreamUrl service magnet (Some type) season episode
            | OtherDebrid \<Rightarrow> s_getStreamUrl service magnet None None None) of
        Returns None \<Rightarrow> Value None
      | Returns (Some streamUrl) \<Rightarrow>
          if streamUrl = [] \<or> \<not> startsWith streamUrl ''http'' then Value None
          else Value (Some streamUrl)
      | Raises (Err (Some message)) \<Rightarrow> Value None
      | Raises (Err None) \<Rightarrow> Threw (Some (cannot_read ''undefined'' ''includes''))
      | Raises Thrown_null \<Rightarrow> Threw (Some (cannot_read ''null'' ''message''))
      | Raises Thrown_undefined \<Rightarrow> Threw (Some (cannot_read ''undefined'' ''message'')))"

text \<open>
  One provider tried on one magnet link, as in the body of both loops: the provider gives
  a URL (the handler redirects), or gives none (the loop goes on), or an exception leaves
  the loop for the handler's \<open>catch\<close>.
\<close>

datatype attempt = Found string | Next | Escapes "string option"

definition truthy :: "nat option \<Rightarrow> bool" where
  "truthy n = (case n of None \<Rightarrow> False | Some k \<Rightarrow> k \<noteq> 0)"

text \<open>
  The two Premiumize branches: a truthy URL redirects; the \<open>catch\<close> logs
  \<open>error.message\<close> and continues, and reading it of \<open>null\<close> or \<open>undefined\<close> throws a
  TypeError that leaves the loop.
\<close>

definition url_attempt :: "string option outcome \<Rightarrow> attempt" where
  "url_attempt r =
     (case r of
        Returns None \<Rightarrow> Next
      | Returns (Some streamUrl) \<Rightarrow> if streamUrl = [] then Next else Found streamUrl
      | Raises (Err message) \<Rightarrow> Next
      | Raises Thrown_null \<Rightarrow> Escapes (Some (cannot_read ''null'' ''message''))
      | Raises Thrown_undefined \<Rightarrow> Escapes (Some (cannot_read ''undefined'' ''message'')))"

definition try_service ::
  "string \<Rightarrow> nat option \<Rightarrow> nat option \<Rightarrow> debrid_service \<Rightarrow> string \<Rightarrow> string \<Rightarrow> attempt" where
  "try_service contentType season episode service magnet h =
     (let serviceName = or_else (s_name service) ''UnknownDebrid'' in
      if serviceName = ''Premiumize'' \<and> contentType = ''series'' \<and> truthy season
           \<and> truthy episode
      then url_attempt (s_getStreamUrl service magnet (Some contentType) season episode)
      else if serviceName = ''Premiumize''
      then url_attempt (s_getStreamUrl service magnet (Some ''movie'') None None)
      else (case getValidStreamingUrl service magnet h contentType season episode of
              Value None \<Rightarrow> Next
            | Value (Some streamUrl) \<Rightarrow> if streamUrl = [] then Next else Found streamUrl
            | Threw message \<Rightarrow> Escapes message))"

text \<open>\<open>for (const service of debridServices)\<close>.\<close>

fun try_services ::
  "string \<Rightarrow> nat option \<Rightarrow> nat option \<Rightarrow> debrid_service list \<Rightarrow> string \<Rightarrow> string \<Rightarrow> attempt" where
  "try_services contentType season episode [] magnet h = Next"
| "try_services contentType season episode (service # rest) magnet h =
     (case try_service contentType season episode service magnet h of
        Found streamUrl \<Rightarrow> Found streamUrl
      | Escapes message \<Rightarrow> Escapes message
      | Next \<Rightarrow> try_services contentType season episode rest magnet h)"

text \<open>The loop over the sorted fallback streams.\<close>

fun try_fallbacks ::
  "string \<Rightarrow> nat option \<Rightarrow> nat option \<Rightarrow> debrid_service list \<Rightarrow> fallback_entry list
     \<Rightarrow> attempt" where
  "try_fallbacks contentType season episode debridServices [] = Next"
| "try_fallbacks contentType season episode debridServices (fallbackStream # rest) =
     (case try_services contentType season episode debridServices
             (fb_magnetLink fallbackStream) (fb_hash fallbackStream) of
        Found streamUrl \<Rightarrow> Found streamUrl
      | Escapes message \<Rightarrow> Escapes message
      | Next \<Rightarrow> try_fallbacks contentType season episode debridServices rest)"

text \<open>
  The content type, season and episode read from the cache key
  (\<open>/series-.*-s(\d+)e(\d+)/i\<close> on a key that starts with \<open>series-\<close>).
\<close>

definition seriesKeyPattern :: rx where
  "seriesKeyPattern = seqs [Lit ''series-'', star dot, Lit ''-s'', Grp (plus_rx digit),
                            Lit ''e'', Grp (plus_rx digit)]"

definition digit_value :: "char \<Rightarrow> nat" where
  "digit_value c = (case map_of (zip digit_chars [0 ..< 10]) c of None \<Rightarrow> 0 | Some d \<Rightarrow> d)"

definition parseInt :: "string \<Rightarrow> nat" where
  "parseInt s = foldl (\<lambda>n c. 10 * n + digit_value c) 0 s"

definition content_of_key :: "string option \<Rightarrow> string \<times> nat option \<times> nat option" where
  "content_of_key cacheKey =
     (case cacheKey of
        None \<Rightarrow> (''movie'', None, None)
      | Some k \<Rightarrow>
          if k = [] then (''movie'', None, None)
          else if startsWith k ''series-''
          then (case rx_exec True seriesKeyPattern k of
                  Some (m # s # e # groups) \<Rightarrow> (''series'', Some (parseInt s), Some (parseInt e))
                | _ \<Rightarrow> (''movie'', None, None))
          else (''movie'', None, None))"

text \<open>
  What decoding the request token gives: the magnet link (absent when the JSON has no such
  field) with the cache key, or the bare magnet link of the legacy format, or an exception
  of the decoder in the legacy path.
\<close>

datatype decoded = Token "string option" "string option" | Legacy string | Undecodable "string option"

text \<open>
  The handler.  Its parameters are what other modules supply: the configured
  providers, \<open>extractInfoHash\<close> and \<open>parseQuality\<close> of the utility module, and the stream
  cache.  Every \<open>throw\<close> inside the \<open>try\<close> ends in the \<open>catch\<close>, which answers 404.
  The first definition is the handler from the hash extraction on, for a decoded magnet
  link and cache key; the second is the whole handler.
\<close>

definition not_available :: "string option \<Rightarrow> response" where
  "not_available details = Status404 ''Stream not available'' details"

definition resolve_with_fallback ::
  "debrid_service list \<Rightarrow> (string option \<Rightarrow> string option computed) \<Rightarrow> (string \<Rightarrow> int)
     \<Rightarrow> (string \<Rightarrow> fallback_entry list option) \<Rightarrow> string option \<Rightarrow> string option
     \<Rightarrow> response" where
  "resolve_with_fallback debridServices extractInfoHash parseQuality streamCache magnet cacheKey =
     (case content_of_key cacheKey of (contentType, season, episode) \<Rightarrow>
      case extractInfoHash magnet of
        Threw message \<Rightarrow> not_available message
      | Value None \<Rightarrow> not_available (Some ''Invalid magnet link - no BTIH hash found'')
      | Value (Some found) \<Rightarrow>
          let h = toLowerCase found in
          if h = [] then not_available (Some ''Invalid magnet link - no BTIH hash found'')
          else
            (case try_services contentType season episode debridServices
                    (case magnet of None \<Rightarrow> [] | Some m \<Rightarrow> m) h of
               Found streamUrl \<Rightarrow> Redirect streamUrl
             | Escapes message \<Rightarrow> not_available message
             | Next \<Rightarrow>
                 (case (case cacheKey of None \<Rightarrow> None
                        | Some k \<Rightarrow> if k = [] then None else streamCache k) of
                    None \<Rightarrow>
                      not_available (Some ''No cached stream available from any debrid service'')
                  | Some cachedStreams \<Rightarrow>
                      let sortedFallbacks =
                            js_sort (\<lambda>a b. parseQuality (fb_filename b)
                                              - parseQuality (fb_filename a))
                              (filter (\<lambda>stream. fb_hash stream \<noteq> h) cachedStreams)
                      in case try_fallbacks contentType season episode debridServices
                                sortedFallbacks of
                           Found streamUrl \<Rightarrow> Redirect streamUrl
                         | Escapes message \<Rightarrow> not_available message
                         | Next \<Rightarrow>
                             not_available
                               (Some ''No cached stream available from any debrid service''))))"

definition magnet_handler ::
  "debrid_service list \<Rightarrow> (string option \<Rightarrow> string option computed) \<Rightarrow> (string \<Rightarrow> int)
     \<Rightarrow> (string \<Rightarrow> fallback_entry list option) \<Rightarrow> decoded \<Rightarrow> response" where
  "magnet_handler debridServices extractInfoHash parseQuality streamCache request =
     (if length debridServices = 0
      then not_available (Some ''No valid debrid service configured'')
      else case request of
        Token magnet cacheKey \<Rightarrow>
          resolve_with_fallback debridServices extractInfoHash parseQuality streamCache
            magnet cacheKey
      | Legacy magnet \<Rightarrow>
          resolve_with_fallback debridServices extractInfoHash parseQuality streamCache
            (Some magnet) None
      | Undecodable message \<Rightarrow> not_available message)"

text \<open>
  Vocabulary for the properties.  The magnet link and the cache key the handler has after
  decoding, the primary magnet link it tries, and the alternates it tries: the entries
  the stream cache holds under the cache key, without those of the primary hash.
\<close>

definition request_magnet :: "decoded \<Rightarrow> string option" where
  "request_magnet request =
     (case request of Token m k \<Rightarrow> m | Legacy m \<Rightarrow> Some m | Undecodable message \<Rightarrow> None)"

definition request_key :: "decoded \<Rightarrow> string option" where
  "request_key request = (case request of Token m k \<Rightarrow> k | _ \<Rightarrow> None)"

definition primary_magnet :: "decoded \<Rightarrow> string" where
  "primary_magnet request = (case request_magnet request of None \<Rightarrow> [] | Some m \<Rightarrow> m)"

definition cached_streams :: "(string \<Rightarrow> fallback_entry list option) \<Rightarrow> decoded \<Rightarrow> fallback_entry list" where
  "cached_streams streamCache request =
     (case request_key request of
        None \<Rightarrow> []
      | Some k \<Rightarrow> if k = [] then [] else (case streamCache k of None \<Rightarrow> [] | Some cs \<Rightarrow> cs))"

definition alternates ::
  "(string option \<Rightarrow> string option computed) \<Rightarrow> (string \<Rightarrow> fallback_entry list option)
     \<Rightarrow> decoded \<Rightarrow> fallback_entry list" where
  "alternates extractInfoHash streamCache request =
     (case extractInfoHash (request_magnet request) of
        Value (Some found) \<Rightarrow>
          filter (\<lambda>stream. fb_hash stream \<noteq> toLowerCase found)
            (cached_streams streamCache request)
      | _ \<Rightarrow> [])"

text \<open>
  The one provider call the loop body makes for a provider and a magnet link, and whether
  the handler takes a URL it returns: the URL is not empty and, outside the two
  Premiumize branches, starts with \<open>http\<close>.
\<close>

definition issued_call ::
  "string \<Rightarrow> nat option \<Rightarrow> nat option \<Rightarrow> debrid_service \<Rightarrow> string
     \<Rightarrow> string option outcome" where
  "issued_call contentType season episode service magnet =
     (let serviceName = or_else (s_name service) ''UnknownDebrid'' in
      if serviceName = ''Premiumize'' \<and> contentType = ''series'' \<and> truthy season
           \<and> truthy episode
      then s_getStreamUrl service magnet (Some contentType) season episode
      else if serviceName = ''Premiumize''
      then s_getStreamUrl service magnet (Some ''movie'') None None
      else (case s_class service of
              RealDebrid \<Rightarrow> s_getCachedUrl service magnet (Some contentType) season episode
            | TorBox \<Rightarrow> s_getStreamUrl service magnet None None None
            | Premiumize \<Rightarrow> s_getStreamUrl service magnet (Some contentType) season episode
            | OtherDebrid \<Rightarrow> s_getStreamUrl service magnet None None None))"

definition accepted :: "debrid_service \<Rightarrow> string \<Rightarrow> bool" where
  "accepted service u =
     (if u = [] then False
      else if or_else (s_name service) ''UnknownDebrid'' = ''Premiumize'' then True
      else startsWith u ''http'')"

text \<open>
  A provider gives the URL \<open>u\<close> for a magnet link when the call made for the request
  returns \<open>u\<close> and the handler takes it; it fails when the call throws, returns
  \<open>null\<close>, or returns a URL the handler does not take.
\<close>

definition provider_gives :: "decoded \<Rightarrow> debrid_service \<Rightarrow> string \<Rightarrow> string \<Rightarrow> bool" where
  "provider_gives request service magnet u =
     (case content_of_key (request_key request) of (contentType, season, episode) \<Rightarrow>
        if issued_call contentType season episode service magnet = Returns (Some u)
        then accepted service u else False)"

definition provider_fails :: "decoded \<Rightarrow> debrid_service \<Rightarrow> string \<Rightarrow> bool" where
  "provider_fails request service magnet =
     (case content_of_key (request_key request) of (contentType, season, episode) \<Rightarrow>
        case issued_call contentType season episode service magnet of
          Returns (Some u) \<Rightarrow> if accepted service u then False else True
        | _ \<Rightarrow> True)"

text \<open>A provider that answers every request with the same outcome.\<close>

definition constant_service :: "string \<Rightarrow> service_class \<Rightarrow> string option outcome \<Rightarrow> debrid_service" where
  "constant_service n c r =
     \<lparr> s_name = n, s_class = c, s_getStreamUrl = (\<lambda>m t s e. r),
       s_getCachedUrl = (\<lambda>m t s e. r) \<rparr>"

text \<open>
  A request for an episode with two providers and a stream cache holding one alternate.
  The first provider, Premiumize, throws when asked for an episode and would give a URL
  when asked for a movie; the second returns a URL that does not start with \<open>http\<close>.
\<close>

definition episode_fails :: debrid_service where
  "episode_fails =
     \<lparr> s_name = ''Premiumize'', s_class = Premiumize,
       s_getStreamUrl = (\<lambda>m t s e. if t = Some ''movie'' then Returns (Some ''http://pm/ok'')
                                     else Raises (Err (Some ''No suitable episode file found''))),
       s_getCachedUrl = (\<lambda>m t s e. Returns None) \<rparr>"

definition failing_services :: "debrid_service list" where
  "failing_services =
     [episode_fails, constant_service ''RealDebrid'' RealDebrid (Returns (Some ''ftp://a''))]"

definition hash_found :: "string option \<Rightarrow> string option computed" where
  "hash_found magnet = Value (Some ''AB12'')"

definition one_alternate :: "string \<Rightarrow> fallback_entry list option" where
  "one_alternate k =
     (if k = ''series-tt1-s2e5''
      then Some [\<lparr> fb_hash = ''cd34'', fb_magnetLink = ''magnet:?xt=urn:btih:cd34'',
                   fb_filename = ''B.S02E05.mkv'', fb_websiteTitle = ''B'', fb_quality = [],
                   fb_size = [], fb_source = ''Y'', fb_service = ''Premiumize'' \<rparr>]
      else None)"

definition episode_request :: decoded where
  "episode_request = Token (Some ''magnet:?xt=urn:btih:AB12'') (Some ''series-tt1-s2e5'')"

section \<open>Properties of the comparator sort\<close>

lemma mset_insert_by: "mset (insert_by cmp x ys) = add_mset x (mset ys)"
  by (induction ys) auto

lemma mset_js_sort: "mset (js_sort cmp xs) = mset xs"
  unfolding js_sort_def by (induction xs) (auto simp: mset_insert_by)

lemma length_js_sort: "length (js_sort cmp xs) = length xs"
  using mset_js_sort [of cmp xs] by (metis size_mset)

lemma set_js_sort: "set (js_sort cmp xs) = set xs"
  using mset_js_sort [of cmp xs] by (metis set_mset_mset)

lemma js_sort_Cons: "js_sort cmp (x # xs) = insert_by cmp x (js_sort cmp xs)"
  by (simp add: js_sort_def)

lemma js_sort_Nil: "js_sort cmp [] = []"
  by (simp add: js_sort_def)

lemma js_sort_eq_Nil: "js_sort cmp xs = [] \<longleftrightarrow> xs = []"
  using length_js_sort [of cmp xs] by auto

lemma set_insert_by: "set (insert_by cmp x ys) = insert x (set ys)"
  by (induction ys) auto

lemma sorted_insert_by:
  assumes tot: "\<And>a b. cmp a b \<le> 0 \<or> cmp b a \<le> 0"
    and trans: "\<And>a b c. cmp a b \<le> 0 \<Longrightarrow> cmp b c \<le> 0 \<Longrightarrow> cmp a c \<le> 0"
    and srt: "sorted_wrt (\<lambda>a b. cmp a b \<le> 0) ys"
  shows "sorted_wrt (\<lambda>a b. cmp a b \<le> 0) (insert_by cmp x ys)"
  using srt
proof (induction ys)
  case Nil
  then show ?case by simp
next
  case (Cons y ys)
  show ?case
  proof (cases "cmp x y \<le> 0")
    case True
    with Cons.prems trans show ?thesis by auto
  next
    case False
    with tot have "cmp y x \<le> 0" by blast
    with False Cons show ?thesis by (auto simp: set_insert_by)
  qed
qed

lemma sorted_js_sort:
  assumes tot: "\<And>a b. cmp a b \<le> 0 \<or> cmp b a \<le> 0"
    and trans: "\<And>a b c. cmp a b \<le> 0 \<Longrightarrow> cmp b c \<le> 0 \<Longrightarrow> cmp a c \<le> 0"
  shows "sorted_wrt (\<lambda>a b. cmp a b \<le> 0) (js_sort cmp xs)"
proof (induction xs)
  case Nil
  then show ?case by (simp add: js_sort_Nil)
next
  case (Cons x xs)
  show ?case
    unfolding js_sort_Cons
  proof (rule sorted_insert_by)
    show "cmp a b \<le> 0 \<or> cmp b a \<le> 0" for a b by (rule tot)
    show "cmp a b \<le> 0 \<Longrightarrow> cmp b c \<le> 0 \<Longrightarrow> cmp a c \<le> 0" for a b c by (rule trans)
    show "sorted_wrt (\<lambda>a b. cmp a b \<le> 0) (js_sort cmp xs)" by (rule Cons.IH)
  qed
qed

text \<open>Sorting by a key descending puts the first element of greatest key in front.\<close>

lemma hd_insert_by:
  "hd (insert_by cmp x ys) = (if ys = [] \<or> cmp x (hd ys) \<le> 0 then x else hd ys)"
  by (cases ys) auto

lemma hd_js_sort_desc:
  fixes key :: "'a \<Rightarrow> int"
  assumes "xs \<noteq> []"
  shows "\<exists>i<length xs. hd (js_sort (\<lambda>a b. key b - key a) xs) = xs ! i
           \<and> (\<forall>j<length xs. key (xs ! j) \<le> key (xs ! i))
           \<and> (\<forall>j<i. key (xs ! j) < key (xs ! i))"
  using assms
proof (induction xs)
  case Nil
  then show ?case by simp
next
  case (Cons x xs)
  let ?cmp = "\<lambda>a b. key b - key a"
  show ?case
  proof (cases "xs = []")
    case True
    then show ?thesis by (simp add: js_sort_def)
  next
    case False
    with Cons.IH obtain i where i: "i < length xs"
      and h: "hd (js_sort ?cmp xs) = xs ! i"
      and mx: "\<forall>j<length xs. key (xs ! j) \<le> key (xs ! i)"
      and fst: "\<forall>j<i. key (xs ! j) < key (xs ! i)" by blast
    have ne: "js_sort ?cmp xs \<noteq> []" using False by (simp add: js_sort_eq_Nil)
    show ?thesis
    proof (cases "key (xs ! i) \<le> key x")
      case True
      then have "hd (js_sort ?cmp (x # xs)) = x"
        by (simp add: js_sort_Cons hd_insert_by h ne)
      moreover have "\<forall>j<length (x # xs). key ((x # xs) ! j) \<le> key x"
        using mx True by (auto simp: nth_Cons split: nat.splits)
      ultimately show ?thesis by (intro exI [of _ 0]) simp
    next
      case False
      then have "hd (js_sort ?cmp (x # xs)) = xs ! i"
        by (simp add: js_sort_Cons hd_insert_by h ne)
      moreover have "\<forall>j<length (x # xs). key ((x # xs) ! j) \<le> key (xs ! i)"
        using mx False by (auto simp: nth_Cons split: nat.splits)
      moreover have "\<forall>j<Suc i. key ((x # xs) ! j) < key (xs ! i)"
        using fst False by (auto simp: nth_Cons split: nat.splits)
      ultimately show ?thesis using i by (intro exI [of _ "Suc i"]) simp
    qed
  qed
qed

section \<open>Ranking\<close>

lemma sorted_wrt_unique:
  assumes "sorted_wrt R xs" "sorted_wrt R ys" "mset xs = mset ys"
    and anti: "\<And>a b. a \<in> set xs \<Longrightarrow> b \<in> set xs \<Longrightarrow> R a b \<Longrightarrow> R b a \<Longrightarrow> a = b"
  shows "xs = ys"
  using assms
proof (induction xs arbitrary: ys)
  case Nil
  then show ?case by simp
next
  case (Cons x xs)
  from Cons.prems(3) have "ys \<noteq> []" by auto
  then obtain y ys' where ys: "ys = y # ys'" by (cases ys) auto
  have sets: "set (x # xs) = set ys" using Cons.prems(3) by (metis set_mset_mset)
  have xy: "x = y"
  proof (rule ccontr)
    assume ne: "x \<noteq> y"
    with sets ys have "x \<in> set ys'" "y \<in> set xs" by auto
    with Cons.prems(1,2) ys have "R y x" "R x y" by auto
    with Cons.prems(4) [of x y] \<open>y \<in> set xs\<close> ne show False by auto
  qed
  with Cons.prems(3) ys have m: "mset xs = mset ys'" by simp
  have "xs = ys'"
  proof (rule Cons.IH)
    show "sorted_wrt R xs" using Cons.prems(1) by simp
    show "sorted_wrt R ys'" using Cons.prems(2) ys by simp
    show "mset xs = mset ys'" by (rule m)
    show "a = b" if "a \<in> set xs" "b \<in> set xs" "R a b" "R b a" for a b
      using Cons.prems(4) [of a b] that by simp
  qed
  with xy ys show ?case by simp
qed

lemma js_sort_permutation:
  assumes tot: "\<And>a b. cmp a b \<le> 0 \<or> cmp b a \<le> 0"
    and trans: "\<And>a b c. cmp a b \<le> 0 \<Longrightarrow> cmp b c \<le> 0 \<Longrightarrow> cmp a c \<le> 0"
    and anti: "\<And>a b. a \<in> set xs \<Longrightarrow> b \<in> set xs \<Longrightarrow> cmp a b \<le> 0 \<Longrightarrow> cmp b a \<le> 0 \<Longrightarrow> a = b"
    and perm: "mset xs = mset ys"
  shows "js_sort cmp xs = js_sort cmp ys"
proof (rule sorted_wrt_unique [where R = "\<lambda>a b. cmp a b \<le> 0"])
  show "sorted_wrt (\<lambda>a b. cmp a b \<le> 0) (js_sort cmp xs)"
    by (rule sorted_js_sort) (rule tot, rule trans)
  show "sorted_wrt (\<lambda>a b. cmp a b \<le> 0) (js_sort cmp ys)"
    by (rule sorted_js_sort) (rule tot, rule trans)
  show "mset (js_sort cmp xs) = mset (js_sort cmp ys)"
    by (simp add: mset_js_sort perm)
  show "a = b" if "a \<in> set (js_sort cmp xs)" "b \<in> set (js_sort cmp xs)"
    "cmp a b \<le> 0" "cmp b a \<le> 0" for a b
    using anti [of a b] that by (simp add: set_js_sort)
qed

lemma quick_cmp_le:
  "quick_cmp a b \<le> 0 \<longleftrightarrow>
     f_quality b < f_quality a \<or> (f_quality a = f_quality b \<and> f_size b \<le> f_size a)"
  by (auto simp: quick_cmp_def)

lemma quick_cmp_total: "quick_cmp a b \<le> 0 \<or> quick_cmp b a \<le> 0"
  unfolding quick_cmp_le by auto

lemma quick_cmp_trans:
  "quick_cmp a b \<le> 0 \<Longrightarrow> quick_cmp b c \<le> 0 \<Longrightarrow> quick_cmp a c \<le> 0"
  unfolding quick_cmp_le by auto

lemma quick_cmp_tie:
  "quick_cmp a b \<le> 0 \<Longrightarrow> quick_cmp b a \<le> 0 \<Longrightarrow>
     f_quality a = f_quality b \<and> f_size a = f_size b"
  unfolding quick_cmp_le by auto

text \<open>The comparator of \<open>sortStreams\<close> orders by tier, then distance, then size.\<close>

lemma band_cmp_le:
  "band_cmp qa sa qb sb \<le> 0 \<longleftrightarrow>
     qb < qa \<or> (qa = qb \<and>
       (getIdealScore sa (idealRange qa) < getIdealScore sb (idealRange qa)
        \<or> (getIdealScore sa (idealRange qa) = getIdealScore sb (idealRange qa) \<and> sb \<le> sa)))"
  by (auto simp: band_cmp_def Let_def)

lemma band_cmp_total: "band_cmp qa sa qb sb \<le> 0 \<or> band_cmp qb sb qa sa \<le> 0"
  unfolding band_cmp_le by auto

lemma band_cmp_trans:
  "band_cmp qa sa qb sb \<le> 0 \<Longrightarrow> band_cmp qb sb qc sc \<le> 0 \<Longrightarrow> band_cmp qa sa qc sc \<le> 0"
  unfolding band_cmp_le by auto

lemma band_cmp_tie:
  "band_cmp qa sa qb sb \<le> 0 \<Longrightarrow> band_cmp qb sb qa sa \<le> 0 \<Longrightarrow> qa = qb \<and> sa = sb"
  unfolding band_cmp_le by auto

text \<open>
  C1: the claim says that within a quality tier the response is ordered by the distance of
  the size from the tier's ideal band.  For a 1080p stream of 3 GB (inside the band 2-16
  GB, distance 0) and one of 20 GB (distance 4000), the response puts the 20 GB stream
  first: it is not in the claimed order.
\<close>

theorem sortedStreams_ignores_band_counterexample:
  "getIdealScore (f_size in_band) (idealRange (f_quality in_band)) = 0
   \<and> getIdealScore (f_size oversized) (idealRange (f_quality oversized)) = 4000
   \<and> sortedStreams [in_band, oversized] = [oversized, in_band]
   \<and> \<not> band_ordered (sortedStreams [in_band, oversized])"
  by code_simp

text \<open>
  C1, as the code has it: the response is the first 50 streams (all of them when there are
  fewer) of a rearrangement of the formatted streams in which every stream stands before
  the streams of a lower quality tier and, within its tier, before the streams of smaller
  size.
\<close>

theorem sortedStreams_quality_then_size:
  "length (sortedStreams formattedStreams) = min 50 (length formattedStreams)
   \<and> (\<exists>ys. mset ys = mset formattedStreams
          \<and> sorted_wrt (\<lambda>a b. f_quality b < f_quality a
                               \<or> (f_quality a = f_quality b \<and> f_size b \<le> f_size a)) ys
          \<and> sortedStreams formattedStreams = take 50 ys)
   \<and> sorted_wrt (\<lambda>a b. f_quality b < f_quality a
                         \<or> (f_quality a = f_quality b \<and> f_size b \<le> f_size a))
        (sortedStreams formattedStreams)"
proof -
  let ?ys = "js_sort quick_cmp formattedStreams"
  let ?R = "\<lambda>a b. f_quality b < f_quality a
                         \<or> (f_quality a = f_quality b \<and> f_size b \<le> f_size a)"
  have "sorted_wrt (\<lambda>a b. quick_cmp a b \<le> 0) ?ys"
    by (rule sorted_js_sort) (rule quick_cmp_total, rule quick_cmp_trans)
  then have s: "sorted_wrt ?R ?ys" by (simp only: quick_cmp_le)
  then have t: "sorted_wrt ?R (take 50 ?ys)" by (rule sorted_wrt_take)
  have m: "mset ?ys = mset formattedStreams" by (rule mset_js_sort)
  have l: "length (sortedStreams formattedStreams) = min 50 (length formattedStreams)"
    by (simp add: sortedStreams_def length_js_sort min.commute)
  from l s t m show ?thesis unfolding sortedStreams_def by blast
qed

text \<open>
  C10: the claim says that permuted inputs give the same output.  Two streams of the same
  tier and size (the same torrent, cached by two providers) tie in the ranking, the sort
  is stable, and each input order is returned as it is.
\<close>

theorem ranking_depends_on_input_order_counterexample:
  "mset [tie_one, tie_two] = mset [tie_two, tie_one]
   \<and> sortedStreams [tie_one, tie_two] = [tie_one, tie_two]
   \<and> sortedStreams [tie_two, tie_one] = [tie_two, tie_one]
   \<and> sortedStreams [tie_one, tie_two] \<noteq> sortedStreams [tie_two, tie_one]
   \<and> sortStreams (\<lambda>n. 720) (\<lambda>n. 1000) [tie_one, tie_two]
        \<noteq> sortStreams (\<lambda>n. 720) (\<lambda>n. 1000) [tie_two, tie_one]"
proof -
  have "mset [tie_one, tie_two] = mset [tie_two, tie_one]" by simp
  moreover have "sortedStreams [tie_one, tie_two] = [tie_one, tie_two]" by code_simp
  moreover have "sortedStreams [tie_two, tie_one] = [tie_two, tie_one]" by code_simp
  moreover have "sortedStreams [tie_one, tie_two] \<noteq> sortedStreams [tie_two, tie_one]"
    by code_simp
  moreover have "sortStreams (\<lambda>n. 720) (\<lambda>n. 1000) [tie_one, tie_two]
        \<noteq> sortStreams (\<lambda>n. 720) (\<lambda>n. 1000) [tie_two, tie_one]" by code_simp
  ultimately show ?thesis by blast
qed

text \<open>
  C10, as the code has it: for two lists that are permutations of each other, the final
  ranking returns the same sequence when no two different streams of the list agree in
  both quality and size; the same holds for \<open>sortStreams\<close> with the parsed quality and
  size of the names.
\<close>

theorem ranking_same_for_permutations_without_ties:
  assumes "mset xs = mset ys"
  shows "((\<forall>a \<in> set xs. \<forall>b \<in> set xs.
             f_quality a = f_quality b \<and> f_size a = f_size b \<longrightarrow> a = b)
            \<longrightarrow> sortedStreams xs = sortedStreams ys)
       \<and> ((\<forall>a \<in> set xs. \<forall>b \<in> set xs.
             parseQuality (f_name a) = parseQuality (f_name b)
               \<and> parseSize (f_name a) = parseSize (f_name b) \<longrightarrow> a = b)
            \<longrightarrow> sortStreams parseQuality parseSize xs = sortStreams parseQuality parseSize ys)"
proof (intro conjI impI)
  assume free: "\<forall>a \<in> set xs. \<forall>b \<in> set xs.
             f_quality a = f_quality b \<and> f_size a = f_size b \<longrightarrow> a = b"
  have "js_sort quick_cmp xs = js_sort quick_cmp ys"
  proof (rule js_sort_permutation)
    show "quick_cmp a b \<le> 0 \<or> quick_cmp b a \<le> 0" for a b by (rule quick_cmp_total)
    show "quick_cmp a b \<le> 0 \<Longrightarrow> quick_cmp b c \<le> 0 \<Longrightarrow> quick_cmp a c \<le> 0" for a b c
      by (rule quick_cmp_trans)
    show "a = b" if "a \<in> set xs" "b \<in> set xs" "quick_cmp a b \<le> 0" "quick_cmp b a \<le> 0"
      for a b using free that quick_cmp_tie [of a b] by blast
    show "mset xs = mset ys" by (rule assms)
  qed
  then show "sortedStreams xs = sortedStreams ys" by (simp add: sortedStreams_def)
next
  assume free: "\<forall>a \<in> set xs. \<forall>b \<in> set xs.
             parseQuality (f_name a) = parseQuality (f_name b)
               \<and> parseSize (f_name a) = parseSize (f_name b) \<longrightarrow> a = b"
  let ?cmp = "\<lambda>a b. band_cmp (parseQuality (f_name a)) (parseSize (f_name a))
                              (parseQuality (f_name b)) (parseSize (f_name b))"
  have "js_sort ?cmp xs = js_sort ?cmp ys"
  proof (rule js_sort_permutation)
    show "?cmp a b \<le> 0 \<or> ?cmp b a \<le> 0" for a b by (rule band_cmp_total)
    show "?cmp a b \<le> 0 \<Longrightarrow> ?cmp b c \<le> 0 \<Longrightarrow> ?cmp a c \<le> 0" for a b c
      by (rule band_cmp_trans)
    show "a = b" if "a \<in> set xs" "b \<in> set xs" "?cmp a b \<le> 0" "?cmp b a \<le> 0"
      for a b
      using free that
        band_cmp_tie [of "parseQuality (f_name a)" "parseSize (f_name a)"
                         "parseQuality (f_name b)" "parseSize (f_name b)"] by blast
    show "mset xs = mset ys" by (rule assms)
  qed
  then show "sortStreams parseQuality parseSize xs = sortStreams parseQuality parseSize ys"
    by (simp add: sortStreams_def)
qed

theorem ranking_same_for_permutations_without_ties_witness:
  "mset [in_band, oversized] = mset [oversized, in_band]
   \<and> sortedStreams [in_band, oversized] = sortedStreams [oversized, in_band]"
proof -
  have p: "mset [in_band, oversized] = mset [oversized, in_band]" by simp
  have free: "\<forall>a \<in> set [in_band, oversized]. \<forall>b \<in> set [in_band, oversized].
             f_quality a = f_quality b \<and> f_size a = f_size b \<longrightarrow> a = b"
    by (simp add: in_band_def oversized_def)
  from ranking_same_for_permutations_without_ties [OF p] free
  have "sortedStreams [in_band, oversized] = sortedStreams [oversized, in_band]" by blast
  with p show ?thesis by blast
qed

section \<open>Deduplication in getStreams\<close>

lemma hash_make_candidate: "hash (make_candidate h stream) = h"
  by (simp add: make_candidate_def Let_def)

lemma recovered_Cons:
  "recovered (x # xs) = (case recover_hash x of None \<Rightarrow> recovered xs | Some h \<Rightarrow> h # recovered xs)"
  by (simp add: recovered_def List.map_filter_simps split: option.splits)

lemma recovered_Nil: "recovered [] = []"
  by (simp add: recovered_def List.map_filter_simps)

lemma add_streams_new:
  assumes "distinct seen"
  shows "\<exists>new. add_streams xs (seen, comb) = (seen @ map hash new, comb @ new)
           \<and> distinct (seen @ map hash new)
           \<and> set (map hash new) = set (recovered xs) - set seen
           \<and> (\<forall>c \<in> set new. \<exists>i<length xs. recover_hash (xs ! i) = Some (hash c)
                  \<and> c = make_candidate (hash c) (xs ! i)
                  \<and> (\<forall>j<i. recover_hash (xs ! j) \<noteq> Some (hash c)))"
  using assms
proof (induction xs arbitrary: seen comb)
  case Nil
  then show ?case by (intro exI [of _ "[]"]) (simp add: recovered_Nil)
next
  case (Cons x xs)
  show ?case
  proof (cases "recover_hash x")
    case None
    from Cons.IH [OF Cons.prems, of comb] obtain new where
      n: "add_streams xs (seen, comb) = (seen @ map hash new, comb @ new)"
         "distinct (seen @ map hash new)"
         "set (map hash new) = set (recovered xs) - set seen"
      and f: "\<forall>c \<in> set new. \<exists>i<length xs. recover_hash (xs ! i) = Some (hash c)
                  \<and> c = make_candidate (hash c) (xs ! i)
                  \<and> (\<forall>j<i. recover_hash (xs ! j) \<noteq> Some (hash c))" by blast
    have "\<exists>i<length (x # xs). recover_hash ((x # xs) ! i) = Some (hash c)
                  \<and> c = make_candidate (hash c) ((x # xs) ! i)
                  \<and> (\<forall>j<i. recover_hash ((x # xs) ! j) \<noteq> Some (hash c))"
      if "c \<in> set new" for c
    proof -
      from f that obtain i where i: "i < length xs" "recover_hash (xs ! i) = Some (hash c)"
        "c = make_candidate (hash c) (xs ! i)" "\<forall>j<i. recover_hash (xs ! j) \<noteq> Some (hash c)"
        by blast
      have "\<forall>j<Suc i. recover_hash ((x # xs) ! j) \<noteq> Some (hash c)"
        using i(4) None by (auto simp: nth_Cons split: nat.splits)
      with i show ?thesis by (intro exI [of _ "Suc i"]) simp
    qed
    with n None show ?thesis by (intro exI [of _ new]) (simp add: recovered_Cons)
  next
    case (Some h)
    show ?thesis
    proof (cases "h \<in> set seen")
      case True
      from Cons.IH [OF Cons.prems, of comb] obtain new where
        n: "add_streams xs (seen, comb) = (seen @ map hash new, comb @ new)"
           "distinct (seen @ map hash new)"
           "set (map hash new) = set (recovered xs) - set seen"
        and f: "\<forall>c \<in> set new. \<exists>i<length xs. recover_hash (xs ! i) = Some (hash c)
                  \<and> c = make_candidate (hash c) (xs ! i)
                  \<and> (\<forall>j<i. recover_hash (xs ! j) \<noteq> Some (hash c))" by blast
      have "\<exists>i<length (x # xs). recover_hash ((x # xs) ! i) = Some (hash c)
                  \<and> c = make_candidate (hash c) ((x # xs) ! i)
                  \<and> (\<forall>j<i. recover_hash ((x # xs) ! j) \<noteq> Some (hash c))"
        if "c \<in> set new" for c
      proof -
        from f that obtain i where i: "i < length xs" "recover_hash (xs ! i) = Some (hash c)"
          "c = make_candidate (hash c) (xs ! i)" "\<forall>j<i. recover_hash (xs ! j) \<noteq> Some (hash c)"
          by blast
        from that n(2) have "hash c \<notin> set seen" by auto
        with True Some have "recover_hash x \<noteq> Some (hash c)" by auto
        then have "\<forall>j<Suc i. recover_hash ((x # xs) ! j) \<noteq> Some (hash c)"
          using i(4) by (auto simp: nth_Cons split: nat.splits)
        with i show ?thesis by (intro exI [of _ "Suc i"]) simp
      qed
      moreover have "set (map hash new) = set (recovered (x # xs)) - set seen"
        using n(3) True Some by (auto simp: recovered_Cons)
      ultimately show ?thesis using n Some True by (intro exI [of _ new]) simp
    next
      case False
      let ?c = "make_candidate h x"
      have d: "distinct (seen @ [h])" using Cons.prems False by simp
      from Cons.IH [OF d, of "comb @ [?c]"] obtain new where
        n: "add_streams xs (seen @ [h], comb @ [?c])
              = ((seen @ [h]) @ map hash new, (comb @ [?c]) @ new)"
           "distinct ((seen @ [h]) @ map hash new)"
           "set (map hash new) = set (recovered xs) - set (seen @ [h])"
        and f: "\<forall>c \<in> set new. \<exists>i<length xs. recover_hash (xs ! i) = Some (hash c)
                  \<and> c = make_candidate (hash c) (xs ! i)
                  \<and> (\<forall>j<i. recover_hash (xs ! j) \<noteq> Some (hash c))" by blast
      have r1: "add_streams (x # xs) (seen, comb)
                  = (seen @ map hash (?c # new), comb @ (?c # new))"
        using n(1) Some False by (simp add: hash_make_candidate)
      have r2: "distinct (seen @ map hash (?c # new))"
        using n(2) by (simp add: hash_make_candidate)
      have r3: "set (map hash (?c # new)) = set (recovered (x # xs)) - set seen"
        using n(3) Some False by (auto simp: recovered_Cons hash_make_candidate)
      have r4: "\<exists>i<length (x # xs). recover_hash ((x # xs) ! i) = Some (hash c)
                  \<and> c = make_candidate (hash c) ((x # xs) ! i)
                  \<and> (\<forall>j<i. recover_hash ((x # xs) ! j) \<noteq> Some (hash c))"
        if "c \<in> set (?c # new)" for c
      proof (cases "c = ?c")
        case True
        then show ?thesis using Some by (intro exI [of _ 0]) (simp add: hash_make_candidate)
      next
        case False
        with that have cn: "c \<in> set new" by simp
        from f cn obtain i where i: "i < length xs" "recover_hash (xs ! i) = Some (hash c)"
          "c = make_candidate (hash c) (xs ! i)" "\<forall>j<i. recover_hash (xs ! j) \<noteq> Some (hash c)"
          by blast
        from cn n(2) have "hash c \<noteq> h" by auto
        with Some have "recover_hash x \<noteq> Some (hash c)" by auto
        then have "\<forall>j<Suc i. recover_hash ((x # xs) ! j) \<noteq> Some (hash c)"
          using i(4) by (auto simp: nth_Cons split: nat.splits)
        with i show ?thesis by (intro exI [of _ "Suc i"]) simp
      qed
      from r1 r2 r3 r4 show ?thesis by blast
    qed
  qed
qed

lemma add_streams_append:
  "add_streams (xs @ ys) st = add_streams ys (add_streams xs st)"
proof (induction xs arbitrary: st)
  case Nil
  then show ?case by (cases st) simp
next
  case (Cons x xs)
  then show ?case by (cases st) (simp split: option.splits)
qed

lemma add_results_flat:
  "add_results rs st = add_streams (processing_order rs) st"
proof (induction rs arbitrary: st)
  case Nil
  then show ?case by (cases st) simp
next
  case (Cons r rs)
  then show ?case by (cases r) (simp_all add: add_streams_append)
qed

lemma repeats_snoc:
  "repeats (hs @ [x]) = repeats hs + (if x \<in> set hs then 1 else 0)"
proof -
  have "filter (\<lambda>i. (hs @ [x]) ! i \<in> set (take i (hs @ [x]))) [0 ..< length hs]
          = filter (\<lambda>i. hs ! i \<in> set (take i hs)) [0 ..< length hs]"
    by (rule filter_cong) (auto simp: nth_append)
  then show ?thesis by (simp add: repeats_def)
qed

lemma repeats_card: "repeats hs + card (set hs) = length hs"
proof (induction hs rule: rev_induct)
  case Nil
  then show ?case by (simp add: repeats_def)
next
  case (snoc x hs)
  then show ?case by (simp add: repeats_snoc card_insert_if)
qed

lemma combine_results_dedup:
  "length (combine_results allResults)
       = length (recovered (processing_order allResults))
           - repeats (recovered (processing_order allResults))"
  "distinct (map hash (combine_results allResults))"
  "set (map hash (combine_results allResults)) = set (recovered (processing_order allResults))"
  "c \<in> set (combine_results allResults) \<Longrightarrow>
     \<exists>i<length (processing_order allResults).
        recover_hash (processing_order allResults ! i) = Some (hash c)
        \<and> c = make_candidate (hash c) (processing_order allResults ! i)
        \<and> (\<forall>j<i. recover_hash (processing_order allResults ! j) \<noteq> Some (hash c))"
proof -
  let ?xs = "processing_order allResults"
  from add_streams_new [of "[]" ?xs "[]"] obtain new where
    n: "add_streams ?xs ([], []) = (map hash new, new)" "distinct (map hash new)"
       "set (map hash new) = set (recovered ?xs)"
    and f: "\<forall>c \<in> set new. \<exists>i<length ?xs. recover_hash (?xs ! i) = Some (hash c)
                  \<and> c = make_candidate (hash c) (?xs ! i)
                  \<and> (\<forall>j<i. recover_hash (?xs ! j) \<noteq> Some (hash c))" by auto
  have c: "combine_results allResults = new"
    by (simp add: combine_results_def add_results_flat n(1))
  show "distinct (map hash (combine_results allResults))" using n(2) c by simp
  show "set (map hash (combine_results allResults)) = set (recovered ?xs)" using n(3) c by simp
  have "length new = card (set (recovered ?xs))"
    using n(2,3) by (metis distinct_card length_map)
  then show "length (combine_results allResults)
       = length (recovered ?xs) - repeats (recovered ?xs)"
    using repeats_card [of "recovered ?xs"] c by simp
  show "\<exists>i<length ?xs. recover_hash (?xs ! i) = Some (hash c)
        \<and> c = make_candidate (hash c) (?xs ! i)
        \<and> (\<forall>j<i. recover_hash (?xs ! j) \<noteq> Some (hash c))"
    if "c \<in> set (combine_results allResults)"
    using f that c by blast
qed

lemma recovered_two_backends:
  "recovered (processing_order two_backends)
     = [''0123456789abcdef0123456789abcdef01234567'',
        ''89abcdef0123456789abcdef0123456789abcdef'',
        ''0123456789abcdef0123456789abcdef01234567'',
        ''89abcdef0123456789abcdef0123456789abcdef'']"
  by code_simp

lemma repeats_two_backends:
  "repeats [''0123456789abcdef0123456789abcdef01234567'',
            ''89abcdef0123456789abcdef0123456789abcdef'',
            ''0123456789abcdef0123456789abcdef01234567'',
            ''89abcdef0123456789abcdef0123456789abcdef''] = 2"
  by code_simp

text \<open>
  C2: the claim counts \<open>N - M + 1\<close> survivors, where \<open>N\<close> candidates carry a recoverable
  hash and \<open>M\<close> of them share it with an earlier candidate.  Two backends that return the
  same two torrents give \<open>N = 4\<close> and \<open>M = 2\<close>, and the aggregation returns two candidates,
  not three.
\<close>

theorem getStreams_dedup_count_counterexample:
  "length (recovered (processing_order two_backends)) = 4
   \<and> repeats (recovered (processing_order two_backends)) = 2
   \<and> length (combine_results two_backends) = 2
   \<and> length (combine_results two_backends)
        \<noteq> length (recovered (processing_order two_backends))
            - repeats (recovered (processing_order two_backends)) + 1"
proof -
  have "length (combine_results two_backends)
          = length (recovered (processing_order two_backends))
              - repeats (recovered (processing_order two_backends))"
    by (rule combine_results_dedup(1))
  then show ?thesis
    unfolding recovered_two_backends repeats_two_backends by simp
qed

text \<open>
  C2, as the code has it: the aggregation returns exactly \<open>N - M\<close> candidates, one for
  each distinct recoverable hash; the candidate kept for a hash is built from the first
  result, in processing order, whose magnet link yields that hash; results without a
  recoverable hash contribute nothing.
\<close>

theorem getStreams_dedup_first_seen:
  "length (combine_results allResults)
       = length (recovered (processing_order allResults))
           - repeats (recovered (processing_order allResults))
   \<and> distinct (map hash (combine_results allResults))
   \<and> set (map hash (combine_results allResults)) = set (recovered (processing_order allResults))
   \<and> (\<forall>c \<in> set (combine_results allResults).
         \<exists>i<length (processing_order allResults).
            recover_hash (processing_order allResults ! i) = Some (hash c)
            \<and> c = make_candidate (hash c) (processing_order allResults ! i)
            \<and> (\<forall>j<i. recover_hash (processing_order allResults ! j) \<noteq> Some (hash c)))"
  using combine_results_dedup [where allResults = allResults] by blast

theorem getStreams_dedup_first_seen_witness:
  "length (combine_results two_backends) = 2
   \<and> set (map hash (combine_results two_backends))
        = {''0123456789abcdef0123456789abcdef01234567'',
           ''89abcdef0123456789abcdef0123456789abcdef''}
   \<and> combine_results two_backends
        = [make_candidate ''0123456789abcdef0123456789abcdef01234567'' first_hit,
           make_candidate ''89abcdef0123456789abcdef0123456789abcdef'' other_hit]"
proof -
  note t = getStreams_dedup_first_seen [of two_backends]
  from t have l: "length (combine_results two_backends) = 2"
    unfolding recovered_two_backends repeats_two_backends by simp
  from t have s: "set (map hash (combine_results two_backends))
        = {''0123456789abcdef0123456789abcdef01234567'',
           ''89abcdef0123456789abcdef0123456789abcdef''}"
    unfolding recovered_two_backends by auto
  have c: "combine_results two_backends
        = [make_candidate ''0123456789abcdef0123456789abcdef01234567'' first_hit,
           make_candidate ''89abcdef0123456789abcdef0123456789abcdef'' other_hit]"
    by code_simp
  from l s c show ?thesis by (intro conjI)
qed

section \<open>Batched cache check\<close>


lemma make_batches_step:
  "i < length H \<Longrightarrow>
     make_batches i H = take 99 (drop i H) # make_batches (i + 99) H"
  by (subst make_batches.simps) (simp add: slice_def batchSize_def)



lemma nth_batch_eq: "nth_batch c H = take 99 (drop (99 * c) H)"
  by (simp add: nth_batch_def slice_def batchSize_def mult.commute)



lemma store_batch_keys:
  "fst ` set (store_batch b r idx res) = fst ` set res \<union> set b"
proof (induction b arbitrary: idx res)
  case Nil
  then show ?case by simp
next
  case (Cons x rest)
  have "fst ` set (AList.update x v res) = insert x (fst ` set res)" for v
    using dom_update [of x v res] by (simp add: dom_map_of_conv_image_fst)
  then show ?case by (simp add: Cons.IH Un_commute insert_commute)
qed

lemma succeeded_Data: "succeeded r \<Longrightarrow> r = Data (Some (response_of r))"
  by (auto simp: succeeded_def response_of_def split: reply.splits option.splits)



lemma upt_from: "c \<le> k \<Longrightarrow> [c ..< Suc k] = c # [Suc c ..< Suc k]"
  by (simp add: upt_conv_Cons)

lemma run_batches_fail_at:
  assumes "i = 99 * c" "c \<le> k" "99 * k < length H"
    and "\<And>k'. c \<le> k' \<Longrightarrow> k' < k \<Longrightarrow> succeeded (request k' (nth_batch k' H))"
    and "\<not> succeeded (request k (nth_batch k H))"
  shows "run_batches request c (make_batches i H) res issued
           = (None, issued @ map (\<lambda>j. nth_batch j H) [c ..< Suc k])"
  using assms
proof (induction i H arbitrary: c res issued rule: make_batches.induct)
  case (1 i H)
  have lt: "i < length H" using "1.prems" by simp
  let ?b = "take 99 (drop i H)"
  have b: "nth_batch c H = ?b" by (simp add: nth_batch_eq "1.prems"(1))
  show ?case
  proof (cases "c = k")
    case True
    with "1.prems"(5) b have "\<not> succeeded (request c ?b)" by simp
    then have "run_batches request c (?b # make_batches (i + 99) H) res issued
                 = (None, issued @ [?b])"
      by (auto simp: succeeded_def split: reply.splits option.splits)
    moreover have "[k ..< Suc k] = [k]" by simp
    ultimately show ?thesis using lt True b by (simp add: make_batches_step del: upt_Suc)
  next
    case False
    with "1.prems"(2) have ck: "c < k" by simp
    have "succeeded (request c ?b)" using "1.prems"(4) [of c] ck b by simp
    then obtain r where ok: "request c ?b = Data (Some r)"
      using succeeded_Data by blast
    have e: "i + batchSize = 99 * Suc c" using "1.prems"(1) by (simp add: batchSize_def)
    have a4: "succeeded (request k' (nth_batch k' H))" if "Suc c \<le> k'" "k' < k" for k'
      using "1.prems"(4) [of k'] that by simp
    from ck have sk: "Suc c \<le> k" by simp
    have "run_batches request c (make_batches i H) res issued
            = run_batches request (Suc c) (make_batches (i + 99) H)
                (store_batch ?b r 0 res) (issued @ [?b])"
      using lt ok by (simp add: make_batches_step)
    also from "1.IH" [OF lt e sk "1.prems"(3) a4 "1.prems"(5),
                of "store_batch ?b r 0 res" "issued @ [?b]"]
    have "\<dots> = (None, (issued @ [?b]) @ map (\<lambda>j. nth_batch j H) [Suc c ..< Suc k])"
      by (simp add: batchSize_def del: upt_Suc)
    also have "(issued @ [?b]) @ map (\<lambda>j. nth_batch j H) [Suc c ..< Suc k]
                 = issued @ map (\<lambda>j. nth_batch j H) [c ..< Suc k]"
      unfolding upt_from [OF "1.prems"(2)] using b by (simp del: upt_Suc)
    finally show ?thesis .
  qed
qed
lemma batch_count_eq: "batch_count n = (n + 98) div 99"
  by (simp add: batch_count_def batchSize_def)


lemma batch_count_bound: "k < batch_count n \<Longrightarrow> 99 * k < n"
proof (rule ccontr)
  assume k: "k < batch_count n" and "\<not> 99 * k < n"
  then have "n + 98 < 99 * Suc k" by simp
  then have "(n + 98) div 99 < Suc k" by (simp add: less_mult_imp_div_less mult.commute)
  with k show False by (simp add: batch_count_eq)
qed



lemma checkCacheStatuses_fail_at:
  assumes "k < batch_count (length H)"
    and "\<forall>k'<k. succeeded (request k' (nth_batch k' H))"
    and "\<not> succeeded (request k (nth_batch k H))"
  shows "Premiumize_checkCacheStatuses request H = ([], map (\<lambda>j. nth_batch j H) [0 ..< Suc k])"
proof -
  have lt: "99 * k < length H" using assms(1) by (rule batch_count_bound)
  have ok: "succeeded (request k' (nth_batch k' H))" if "0 \<le> k'" "k' < k" for k'
    using assms(2) that by blast
  from run_batches_fail_at [of 0 0 k H request "[]" "[]", OF _ _ lt ok assms(3)]
  have "run_batches request 0 (make_batches 0 H) [] []
          = (None, map (\<lambda>j. nth_batch j H) [0 ..< Suc k])" by simp
  then show ?thesis by (simp add: Premiumize_checkCacheStatuses_def del: upt_Suc)
qed

lemma length_hashes100: "length hashes100 = 100"
  by (simp add: hashes100_def)

lemma batch_count_100: "batch_count (length hashes100) = 2"
  by (simp add: length_hashes100 batch_count_eq)



text \<open>
  C4: the claim says that a failing chunk leaves the results of the earlier chunks in the
  returned object.  With one hundred hashes and a provider whose second request throws,
  the first chunk has stored its entries when the failure occurs, and the method returns
  the empty object.
\<close>

theorem Premiumize_checkCacheStatuses_partial_results_counterexample:
  "succeeded (second_fails 0 (nth_batch 0 hashes100))
   \<and> \<not> succeeded (second_fails 1 (nth_batch 1 hashes100))
   \<and> store_batch (nth_batch 0 hashes100)
        (response_of (second_fails 0 (nth_batch 0 hashes100))) 0 [] \<noteq> []
   \<and> fst (Premiumize_checkCacheStatuses second_fails hashes100) = []"
proof -
  have s0: "succeeded (second_fails 0 (nth_batch 0 hashes100))"
    by (simp add: succeeded_def second_fails_def)
  have s1: "\<not> succeeded (second_fails 1 (nth_batch 1 hashes100))"
    by (simp add: succeeded_def second_fails_def)
  have "nth_batch 0 hashes100 \<noteq> []"
    using length_hashes100 by (auto simp: nth_batch_eq)
  then have "set (nth_batch 0 hashes100) \<noteq> {}" by simp
  then have "fst ` set (store_batch (nth_batch 0 hashes100)
        (response_of (second_fails 0 (nth_batch 0 hashes100))) 0 []) \<noteq> {}"
    by (simp add: store_batch_keys)
  then have acc: "store_batch (nth_batch 0 hashes100)
        (response_of (second_fails 0 (nth_batch 0 hashes100))) 0 [] \<noteq> []" by auto
  have "\<forall>k'<1. succeeded (second_fails k' (nth_batch k' hashes100))"
    using s0 by simp
  from checkCacheStatuses_fail_at
         [where k = 1 and H = hashes100 and request = second_fails, OF _ this s1]
  have "fst (Premiumize_checkCacheStatuses second_fails hashes100) = []"
    by (simp add: batch_count_100)
  with s0 s1 acc show ?thesis by blast
qed

text \<open>
  C4, as the code has it: when the request for chunk \<open>k\<close> fails after the earlier
  requests succeeded, the method returns the empty object, whatever the earlier chunks
  stored, and the requests issued are exactly those of chunks \<open>0\<close> to \<open>k\<close>: no later
  chunk is requested.
\<close>

theorem Premiumize_checkCacheStatuses_failed_chunk:
  assumes "k < batch_count (length H)"
    and "\<forall>k'<k. succeeded (request k' (nth_batch k' H))"
    and "\<not> succeeded (request k (nth_batch k H))"
  shows "Premiumize_checkCacheStatuses request H
           = ([], map (\<lambda>j. nth_batch j H) [0 ..< Suc k])"
  using assms by (rule checkCacheStatuses_fail_at)

theorem Premiumize_checkCacheStatuses_failed_chunk_witness:
  "1 < batch_count (length hashes100)
   \<and> succeeded (second_fails 0 (nth_batch 0 hashes100))
   \<and> \<not> succeeded (second_fails 1 (nth_batch 1 hashes100))
   \<and> Premiumize_checkCacheStatuses second_fails hashes100
       = ([], [nth_batch 0 hashes100, nth_batch 1 hashes100])"
proof -
  have c: "1 < batch_count (length hashes100)" by (simp add: batch_count_100)
  have s0: "succeeded (second_fails 0 (nth_batch 0 hashes100))"
    by (simp add: succeeded_def second_fails_def)
  then have a: "\<forall>k'<1. succeeded (second_fails k' (nth_batch k' hashes100))" by simp
  have s1: "\<not> succeeded (second_fails 1 (nth_batch 1 hashes100))"
    by (simp add: succeeded_def second_fails_def)
  from Premiumize_checkCacheStatuses_failed_chunk
         [where k = 1 and H = hashes100 and request = second_fails, OF c a s1]
  have "Premiumize_checkCacheStatuses second_fails hashes100
       = ([], [nth_batch 0 hashes100, nth_batch 1 hashes100])"
    by (simp add: numeral_2_eq_2)
  with c s0 s1 show ?thesis by blast
qed

section \<open>Merging the cache checks\<close>

lemma toLowerCase_char_idem: "toLowerCase_char (toLowerCase_char c) = toLowerCase_char c"
  by (simp add: toLowerCase_char_def)

lemma toLowerCase_idem: "toLowerCase (toLowerCase s) = toLowerCase s"
  by (simp add: toLowerCase_def toLowerCase_char_idem)

lemma toLowerCase_eq_Nil: "toLowerCase s = [] \<longleftrightarrow> s = []"
  by (simp add: toLowerCase_def)

lemma set_update_cases:
  "(k', v') \<in> set (AList.update k v al) \<Longrightarrow> (k', v') = (k, v) \<or> (k', v') \<in> set al"
  by (induction al) (auto split: if_splits)

lemma fill_cacheMap_keys:
  "fst ` set (fill_cacheMap results vs cm)
     = fst ` set cm \<union> {toLowerCase (hash s) | s. s \<in> set vs \<and> hash s \<noteq> []
                              \<and> map_of results (toLowerCase (hash s)) \<noteq> None}"
proof (induction vs arbitrary: cm)
  case Nil
  then show ?case by simp
next
  case (Cons x vs)
  show ?case
  proof (cases "hash x = []")
    case True
    then show ?thesis using Cons.IH [of cm] by auto
  next
    case False
    show ?thesis
    proof (cases "map_of results (toLowerCase (hash x))")
      case None
      then show ?thesis using False Cons.IH [of cm] by auto
    next
      case (Some r)
      have "fst ` set (AList.update k v cm) = insert k (fst ` set cm)" for k v
        using dom_update [of k v cm] by simp
      then show ?thesis using False Some Cons.IH by (auto simp: Let_def)
    qed
  qed
qed

lemma fill_cacheMap_entries:
  "(k, v) \<in> set (fill_cacheMap results vs cm) \<Longrightarrow>
     (k, v) \<in> set cm \<or>
     (\<exists>s \<in> set vs. \<exists>r. hash s \<noteq> [] \<and> k = toLowerCase (hash s)
         \<and> map_of results k = Some r \<and> v = make_entry r k s)"
proof (induction vs arbitrary: cm)
  case Nil
  then show ?case by simp
next
  case (Cons x vs)
  show ?case
  proof (cases "hash x = []")
    case True
    with Cons.prems have "(k, v) \<in> set (fill_cacheMap results vs cm)" by simp
    from Cons.IH [OF this] show ?thesis by auto
  next
    case False
    show ?thesis
    proof (cases "map_of results (toLowerCase (hash x))")
      case None
      with False Cons.prems have "(k, v) \<in> set (fill_cacheMap results vs cm)" by simp
      from Cons.IH [OF this] show ?thesis by auto
    next
      case (Some r)
      let ?h = "toLowerCase (hash x)"
      from False Some Cons.prems
      have "(k, v) \<in> set (fill_cacheMap results vs (AList.update ?h (make_entry r ?h x) cm))"
        by (simp add: Let_def)
      from Cons.IH [OF this] set_update_cases [of k v ?h "make_entry r ?h x" cm]
      show ?thesis using False Some by auto
    qed
  qed
qed
lemma checkCacheStatuses_fill:
  assumes "service (map (\<lambda>s. toLowerCase (hash s)) (filter (\<lambda>s. hash s \<noteq> []) streams))
             = Some results"
  shows "checkCacheStatuses service streams
           = fill_cacheMap results (filter (\<lambda>s. hash s \<noteq> []) streams) []"
proof (cases "filter (\<lambda>s. hash s \<noteq> []) streams = []")
  case True
  then show ?thesis by (simp add: checkCacheStatuses_def Let_def)
next
  case False
  then have "streams \<noteq> []" by auto
  with False assms show ?thesis by (simp add: checkCacheStatuses_def Let_def)
qed

lemma e_hash_make_entry: "e_hash (make_entry r k s) = k"
  by (simp add: make_entry_def Let_def)

lemma e_cached_make_entry: "e_cached (make_entry r k s) = (cached r \<noteq> JBool False)"
  by (simp add: make_entry_def Let_def)

lemma merged_entries:
  assumes "service (map (\<lambda>s. toLowerCase (hash s)) (filter (\<lambda>s. hash s \<noteq> []) streams))
             = Some results"
    and "x \<in> set (serviceStreams name (checkCacheStatuses service streams))"
  shows "\<exists>s \<in> set streams. \<exists>r. hash s \<noteq> []
           \<and> map_of results (toLowerCase (hash s)) = Some r \<and> cached r \<noteq> JBool False
           \<and> x = \<lparr> ss_stream = make_entry r (toLowerCase (hash s)) s, ss_service = name,
                   ss_hash = toLowerCase (hash s) \<rparr>"
proof -
  let ?vs = "filter (\<lambda>s. hash s \<noteq> []) streams"
  from assms(2) obtain k v where kv: "(k, v) \<in> set (fill_cacheMap results ?vs [])"
    and v: "e_hash v \<noteq> []" "e_cached v"
    and x: "x = \<lparr> ss_stream = v, ss_service = name, ss_hash = toLowerCase (e_hash v) \<rparr>"
    unfolding checkCacheStatuses_fill [where service = service and streams = streams and results = results, OF assms(1)] serviceStreams_def by auto
  from fill_cacheMap_entries [OF kv] obtain s r where s: "s \<in> set ?vs" "hash s \<noteq> []"
    "k = toLowerCase (hash s)" "map_of results k = Some r" "v = make_entry r k s" by auto
  from s(5) v(2) have "cached r \<noteq> JBool False" by (simp add: e_cached_make_entry)
  moreover from x s(3,5)
  have "x = \<lparr> ss_stream = make_entry r (toLowerCase (hash s)) s, ss_service = name,
              ss_hash = toLowerCase (hash s) \<rparr>"
    by (simp add: e_hash_make_entry toLowerCase_idem)
  ultimately show ?thesis using s by auto
qed

lemma merged_hashes:
  assumes "service (map (\<lambda>s. toLowerCase (hash s)) (filter (\<lambda>s. hash s \<noteq> []) streams))
             = Some results"
  shows "ss_hash ` set (serviceStreams name (checkCacheStatuses service streams))
           = {toLowerCase (hash s) | s. s \<in> set streams \<and> hash s \<noteq> []
                \<and> (\<exists>r. map_of results (toLowerCase (hash s)) = Some r
                         \<and> cached r \<noteq> JBool False)}"
    (is "?L = ?R")
proof
  show "?L \<subseteq> ?R"
  proof
    fix h assume "h \<in> ?L"
    then obtain x where x: "x \<in> set (serviceStreams name (checkCacheStatuses service streams))"
      and h: "h = ss_hash x" by auto
    from merged_entries [where service = service and streams = streams and results = results, OF assms x] show "h \<in> ?R" using h by auto
  qed
  show "?R \<subseteq> ?L"
  proof
    fix h assume "h \<in> ?R"
    then obtain s r where s: "s \<in> set streams" "hash s \<noteq> []" "h = toLowerCase (hash s)"
      "map_of results h = Some r" "cached r \<noteq> JBool False" by auto
    let ?vs = "filter (\<lambda>s. hash s \<noteq> []) streams"
    have "h \<in> fst ` set (fill_cacheMap results ?vs [])"
      unfolding fill_cacheMap_keys using s by auto
    then obtain v where kv: "(h, v) \<in> set (fill_cacheMap results ?vs [])" by auto
    from fill_cacheMap_entries [OF kv] obtain s' r' where
      "map_of results h = Some r'" "v = make_entry r' h s'" by auto
    with s(4) have v: "v = make_entry r h s'" by simp
    have "h \<noteq> []" using s(2,3) by (simp add: toLowerCase_eq_Nil)
    with v s(5) have "e_hash v \<noteq> []" "e_cached v" "toLowerCase (e_hash v) = h"
      using s(3) by (simp_all add: e_hash_make_entry e_cached_make_entry toLowerCase_idem)
    with kv have "\<lparr> ss_stream = v, ss_service = name, ss_hash = h \<rparr>
                    \<in> set (serviceStreams name (checkCacheStatuses service streams))"
      unfolding checkCacheStatuses_fill [where service = service and streams = streams and results = results, OF assms] serviceStreams_def by force
    then show "h \<in> ?L" by force
  qed
qed

text \<open>
  C5: the claim says an entry is kept only when its \<open>cached\<close> field is exactly true, and
  that an entry without the field is not kept.  A provider result without the field is
  given \<open>cached: true\<close> by the merge (\<open>result.cached !== false\<close>) and is kept.
\<close>

theorem merge_keeps_undefined_cached_counterexample:
  "no_flag [''ab12'']
      = Some [(''ab12'', \<lparr> cached = JUndefined, files_c = [], fileCount = 0,
                           service_c = ''Premiumize'' \<rparr>)]
   \<and> map ss_hash (serviceStreams ''Premiumize'' (checkCacheStatuses no_flag [cand1]))
        = [''ab12'']"
  by code_simp

text \<open>
  C5, as the code has it: when the provider answers, the hashes kept for it are exactly
  the lower-cased hashes of the candidates for which the provider's result exists and has
  a \<open>cached\<close> field other than \<open>false\<close> (absent counts as cached); every kept entry is
  tagged with the provider's name and carries the magnet link, file name, display title,
  quality, size and source of a candidate with that hash, with the code's defaults for
  empty fields.
\<close>

theorem merge_keeps_unless_cached_false:
  assumes "service (map (\<lambda>s. toLowerCase (hash s)) (filter (\<lambda>s. hash s \<noteq> []) streams))
             = Some results"
  shows "ss_hash ` set (serviceStreams name (checkCacheStatuses service streams))
           = {toLowerCase (hash s) | s. s \<in> set streams \<and> hash s \<noteq> []
                \<and> (\<exists>r. map_of results (toLowerCase (hash s)) = Some r
                         \<and> cached r \<noteq> JBool False)}
       \<and> (\<forall>x \<in> set (serviceStreams name (checkCacheStatuses service streams)).
            \<exists>s \<in> set streams. \<exists>r. hash s \<noteq> []
              \<and> map_of results (toLowerCase (hash s)) = Some r \<and> cached r \<noteq> JBool False
              \<and> ss_hash x = toLowerCase (hash s) \<and> ss_service x = name
              \<and> e_cached (ss_stream x)
              \<and> e_magnetLink (ss_stream x) = magnetLink s
              \<and> e_filename (ss_stream x)
                   = (if filename s = [] then ''Unknown'' else filename s)
              \<and> e_websiteTitle (ss_stream x)
                   = (if websiteTitle s \<noteq> [] then websiteTitle s
                      else if filename s \<noteq> [] then filename s else ''Unknown'')
              \<and> e_quality (ss_stream x)
                   = (if quality s \<noteq> [] then quality s
                      else match0 qualityPattern (filename s))
              \<and> e_size (ss_stream x)
                   = (if size_s s \<noteq> [] then size_s s else match0 sizePattern (filename s))
              \<and> e_source (ss_stream x) = (if source s = [] then ''Unknown'' else source s))"
proof -
  have "\<exists>s \<in> set streams. \<exists>r. hash s \<noteq> []
              \<and> map_of results (toLowerCase (hash s)) = Some r \<and> cached r \<noteq> JBool False
              \<and> ss_hash x = toLowerCase (hash s) \<and> ss_service x = name
              \<and> e_cached (ss_stream x)
              \<and> e_magnetLink (ss_stream x) = magnetLink s
              \<and> e_filename (ss_stream x)
                   = (if filename s = [] then ''Unknown'' else filename s)
              \<and> e_websiteTitle (ss_stream x)
                   = (if websiteTitle s \<noteq> [] then websiteTitle s
                      else if filename s \<noteq> [] then filename s else ''Unknown'')
              \<and> e_quality (ss_stream x)
                   = (if quality s \<noteq> [] then quality s
                      else match0 qualityPattern (filename s))
              \<and> e_size (ss_stream x)
                   = (if size_s s \<noteq> [] then size_s s else match0 sizePattern (filename s))
              \<and> e_source (ss_stream x) = (if source s = [] then ''Unknown'' else source s)"
    if x: "x \<in> set (serviceStreams name (checkCacheStatuses service streams))" for x
  proof -
    from merged_entries
           [where service = service and streams = streams and results = results, OF assms x]
    obtain s r where s: "s \<in> set streams" "hash s \<noteq> []"
      "map_of results (toLowerCase (hash s)) = Some r" "cached r \<noteq> JBool False"
      "x = \<lparr> ss_stream = make_entry r (toLowerCase (hash s)) s, ss_service = name,
              ss_hash = toLowerCase (hash s) \<rparr>" by blast
    show ?thesis
      by (rule bexI [OF _ s(1)], rule exI [of _ r])
         (simp add: s make_entry_def Let_def or_else_def)
  qed
  with merged_hashes
         [where service = service and streams = streams and results = results
            and name = name, OF assms]
  show ?thesis by blast
qed

lemma answers_eq:
  "answers hs
     = Some [(''ab12'', \<lparr> cached = JBool True, files_c = [], fileCount = 0,
                          service_c = ''Premiumize'' \<rparr>),
             (''cd34'', \<lparr> cached = JBool False, files_c = [], fileCount = 0,
                          service_c = ''Premiumize'' \<rparr>)]"
  by (simp add: answers_def)

lemma kept_example:
  "map ss_hash (serviceStreams ''Premiumize'' (checkCacheStatuses answers [cand1, cand2]))
        = [''ab12'']"
  by code_simp

lemma kept_example_set:
  "ss_hash ` set (serviceStreams ''Premiumize'' (checkCacheStatuses answers [cand1, cand2]))
     = {''ab12''}"
proof -
  have "ss_hash ` set (serviceStreams ''Premiumize'' (checkCacheStatuses answers [cand1, cand2]))
     = set (map ss_hash (serviceStreams ''Premiumize''
                           (checkCacheStatuses answers [cand1, cand2])))"
    by (simp only: set_map)
  also have "\<dots> = {''ab12''}" unfolding kept_example by simp
  finally show ?thesis .
qed

theorem merge_keeps_unless_cached_false_witness:
  "answers (map (\<lambda>s. toLowerCase (hash s)) (filter (\<lambda>s. hash s \<noteq> []) [cand1, cand2]))
     = Some [(''ab12'', \<lparr> cached = JBool True, files_c = [], fileCount = 0,
                          service_c = ''Premiumize'' \<rparr>),
             (''cd34'', \<lparr> cached = JBool False, files_c = [], fileCount = 0,
                          service_c = ''Premiumize'' \<rparr>)]
   \<and> map ss_hash (serviceStreams ''Premiumize'' (checkCacheStatuses answers [cand1, cand2]))
        = [''ab12'']
   \<and> ''ab12'' \<in> {toLowerCase (hash s) | s. s \<in> set [cand1, cand2] \<and> hash s \<noteq> []
                \<and> (\<exists>r. map_of [(''ab12'', \<lparr> cached = JBool True, files_c = [],
                                             fileCount = 0, service_c = ''Premiumize'' \<rparr>),
                                 (''cd34'', \<lparr> cached = JBool False, files_c = [],
                                             fileCount = 0, service_c = ''Premiumize'' \<rparr>)]
                           (toLowerCase (hash s)) = Some r
                         \<and> cached r \<noteq> JBool False)}"
proof -
  let ?results = "[(''ab12'', \<lparr> cached = JBool True, files_c = [], fileCount = 0,
                          service_c = ''Premiumize'' \<rparr>),
             (''cd34'', \<lparr> cached = JBool False, files_c = [], fileCount = 0,
                          service_c = ''Premiumize'' \<rparr>)]"
  let ?kept = "{toLowerCase (hash s) | s. s \<in> set [cand1, cand2] \<and> hash s \<noteq> []
                \<and> (\<exists>r. map_of ?results (toLowerCase (hash s)) = Some r
                         \<and> cached r \<noteq> JBool False)}"
  have a: "answers (map (\<lambda>s. toLowerCase (hash s)) (filter (\<lambda>s. hash s \<noteq> []) [cand1, cand2]))
     = Some ?results" by (rule answers_eq)
  from merge_keeps_unless_cached_false
         [where service = answers and streams = "[cand1, cand2]" and results = ?results
            and name = "''Premiumize''", OF a]
  have eq: "ss_hash ` set (serviceStreams ''Premiumize''
                             (checkCacheStatuses answers [cand1, cand2])) = ?kept"
    by (rule conjunct1)
  have mem: "''ab12'' \<in> ?kept"
    by (subst eq [symmetric], subst kept_example_set, rule insertI1)
  show ?thesis
    by (intro conjI) (rule a, rule kept_example, rule mem)
qed

section \<open>Movie file selection\<close>

lemma length_split_char:
  "length (split_char d s) = Suc (length (filter (\<lambda>c. c = d) s))"
  by (induction s) (auto split: list.splits)

lemma sizeMB_gt: "((of_int s :: rat) / (1024 * 1024) > of_int k) \<longleftrightarrow> s > k * 1048576"
proof -
  have "((of_int s :: rat) / (1024 * 1024) > of_int k)
          \<longleftrightarrow> (of_int (k * 1048576) :: rat) < of_int s"
    by (simp add: pos_less_divide_eq)
  then show ?thesis by (simp only: of_int_less_iff)
qed

lemma scoreMovieFile_formula:
  "scoreMovieFile file =
     100 + (if size_f file > 500 * 1048576 then 300 else 0)
         + (if size_f file > 1000 * 1048576 then 200 else 0)
         + (if size_f file > 2000 * 1048576 then 150 else 0)
         + (if size_f file > 5000 * 1048576 then 100 else 0)
         - (if \<exists>kw \<in> set [''sample'', ''trailer'', ''preview'', ''extras'', ''bonus'',
                             ''deleted'', ''behind'', ''making'', ''interview'', ''featurette''].
                 includes_str (toLowerCase (path file)) kw then 800 else 0)
         + (if extension file = ''mkv'' then 50 else 0)
         + (if extension file = ''mp4'' then 40 else 0)
         + (if length (filter (\<lambda>c. c = CHR ''/'') (path file)) \<le> 1 then 100 else 0)"
proof -
  have a: "((of_int (size_f file) :: rat) / (1024 * 1024) > 500)
             \<longleftrightarrow> size_f file > 500 * 1048576"
    using sizeMB_gt [of 500 "size_f file"] by simp
  have b: "((of_int (size_f file) :: rat) / (1024 * 1024) > 1000)
             \<longleftrightarrow> size_f file > 1000 * 1048576"
    using sizeMB_gt [of 1000 "size_f file"] by simp
  have c: "((of_int (size_f file) :: rat) / (1024 * 1024) > 2000)
             \<longleftrightarrow> size_f file > 2000 * 1048576"
    using sizeMB_gt [of 2000 "size_f file"] by simp
  have d: "((of_int (size_f file) :: rat) / (1024 * 1024) > 5000)
             \<longleftrightarrow> size_f file > 5000 * 1048576"
    using sizeMB_gt [of 5000 "size_f file"] by simp
  have e: "list_ex (\<lambda>kw. includes_str (toLowerCase (path file)) kw) badKeywords
     \<longleftrightarrow> (\<exists>kw \<in> set [''sample'', ''trailer'', ''preview'', ''extras'', ''bonus'',
                             ''deleted'', ''behind'', ''making'', ''interview'', ''featurette''].
                 includes_str (toLowerCase (path file)) kw)"
    unfolding badKeywords_def list_ex_iff by (rule refl)
  have f: "length (split_char CHR ''/'' (path file)) \<le> 2
     \<longleftrightarrow> length (filter (\<lambda>c. c = CHR ''/'') (path file)) \<le> 1"
    by (simp add: length_split_char)
  show ?thesis
    unfolding scoreMovieFile_def Let_def a b c d e f by simp
qed

lemma findBestMovieFile_hd:
  assumes "filter isVideo files \<noteq> []"
  shows "\<exists>i<length (filter isVideo files).
           findBestMovieFile files
             = Some (filter isVideo files ! i, scoreMovieFile (filter isVideo files ! i))
         \<and> (\<forall>j<length (filter isVideo files).
               scoreMovieFile (filter isVideo files ! j)
                 \<le> scoreMovieFile (filter isVideo files ! i))
         \<and> (\<forall>j<i. scoreMovieFile (filter isVideo files ! j)
                     < scoreMovieFile (filter isVideo files ! i))"
proof -
  define vs where "vs = filter isVideo files"
  define scored where "scored = map (\<lambda>file. (file, scoreMovieFile file)) vs"
  have ne: "scored \<noteq> []" using assms by (simp add: scored_def vs_def)
  from hd_js_sort_desc [OF ne, of snd] obtain i where i: "i < length scored"
    and h: "hd (js_sort (\<lambda>a b. snd b - snd a) scored) = scored ! i"
    and mx: "\<forall>j<length scored. snd (scored ! j) \<le> snd (scored ! i)"
    and fs: "\<forall>j<i. snd (scored ! j) < snd (scored ! i)" by blast
  have len: "length scored = length vs" by (simp add: scored_def)
  have nth: "scored ! j = (vs ! j, scoreMovieFile (vs ! j))" if "j < length vs" for j
    using that by (simp add: scored_def)
  have res: "findBestMovieFile files = Some (vs ! i, scoreMovieFile (vs ! i))"
    using assms i h len nth [of i]
    by (simp add: findBestMovieFile_def Let_def vs_def [symmetric] scored_def [symmetric])
  have mx': "\<forall>j<length vs. scoreMovieFile (vs ! j) \<le> scoreMovieFile (vs ! i)"
    using mx i len nth by auto
  have fs': "\<forall>j<i. scoreMovieFile (vs ! j) < scoreMovieFile (vs ! i)"
    using fs i len nth by auto
  from i len res mx' fs' show ?thesis unfolding vs_def by auto
qed

text \<open>
  C6: for a list with at least one video file, movie selection returns the video file of
  greatest score, and among files of that score the first of the list; the score is 100,
  plus 300, 200, 150 and 100 for a size above 500, 1000, 2000 and 5000 MB (cumulative),
  minus 800 when the lower-cased path contains one of the ten keywords, plus 50 for
  extension mkv, plus 40 for mp4, plus 100 when the path has at most two components.
\<close>

theorem findBestMovieFile_first_of_greatest_score:
  assumes "filter isVideo files \<noteq> []"
  shows "(\<exists>i<length (filter isVideo files).
           findBestMovieFile files
             = Some (filter isVideo files ! i, scoreMovieFile (filter isVideo files ! i))
         \<and> (\<forall>j<length (filter isVideo files).
               scoreMovieFile (filter isVideo files ! j)
                 \<le> scoreMovieFile (filter isVideo files ! i))
         \<and> (\<forall>j<i. scoreMovieFile (filter isVideo files ! j)
                     < scoreMovieFile (filter isVideo files ! i)))
       \<and> scoreMovieFile file =
           100 + (if size_f file > 500 * 1048576 then 300 else 0)
               + (if size_f file > 1000 * 1048576 then 200 else 0)
               + (if size_f file > 2000 * 1048576 then 150 else 0)
               + (if size_f file > 5000 * 1048576 then 100 else 0)
               - (if \<exists>kw \<in> set [''sample'', ''trailer'', ''preview'', ''extras'', ''bonus'',
                                   ''deleted'', ''behind'', ''making'', ''interview'',
                                   ''featurette''].
                       includes_str (toLowerCase (path file)) kw then 800 else 0)
               + (if extension file = ''mkv'' then 50 else 0)
               + (if extension file = ''mp4'' then 40 else 0)
               + (if length (filter (\<lambda>c. c = CHR ''/'') (path file)) \<le> 1 then 100 else 0)"
  using findBestMovieFile_hd [OF assms] scoreMovieFile_formula [of "file"] by blast

lemma listed_sample:
  "listed_file ''Movie.Sample.2024.mkv'' 5 =
     \<lparr> path = ''Movie.Sample.2024.mkv'', size_f = 5242880,
       link = ''https://dl/Movie.Sample.2024.mkv'',
       stream_link = ''https://dl/Movie.Sample.2024.mkv'',
       isVideo = True, isSubtitle = False, extension = ''mkv'' \<rparr>"
  by code_simp

lemma listed_movie:
  "listed_file ''Movie.2024.1080p.mkv'' 2000 =
     \<lparr> path = ''Movie.2024.1080p.mkv'', size_f = 2097152000,
       link = ''https://dl/Movie.2024.1080p.mkv'',
       stream_link = ''https://dl/Movie.2024.1080p.mkv'',
       isVideo = True, isSubtitle = False, extension = ''mkv'' \<rparr>"
  by code_simp

theorem findBestMovieFile_first_of_greatest_score_witness:
  "filter isVideo [listed_file ''Movie.Sample.2024.mkv'' 5,
                   listed_file ''Movie.2024.1080p.mkv'' 2000] \<noteq> []
   \<and> scoreMovieFile (listed_file ''Movie.2024.1080p.mkv'' 2000) = 750
   \<and> findBestMovieFile [listed_file ''Movie.Sample.2024.mkv'' 5,
                         listed_file ''Movie.2024.1080p.mkv'' 2000]
       = Some (listed_file ''Movie.2024.1080p.mkv'' 2000, 750)"
proof -
  let ?a = "listed_file ''Movie.Sample.2024.mkv'' 5"
  let ?b = "listed_file ''Movie.2024.1080p.mkv'' 2000"
  have h: "filter isVideo [?a, ?b] \<noteq> []"
    unfolding listed_sample listed_movie by simp
  have "scoreMovieFile ?b =
           100 + (if size_f ?b > 500 * 1048576 then 300 else 0)
               + (if size_f ?b > 1000 * 1048576 then 200 else 0)
               + (if size_f ?b > 2000 * 1048576 then 150 else 0)
               + (if size_f ?b > 5000 * 1048576 then 100 else 0)
               - (if \<exists>kw \<in> set [''sample'', ''trailer'', ''preview'', ''extras'', ''bonus'',
                                   ''deleted'', ''behind'', ''making'', ''interview'',
                                   ''featurette''].
                       includes_str (toLowerCase (path ?b)) kw then 800 else 0)
               + (if extension ?b = ''mkv'' then 50 else 0)
               + (if extension ?b = ''mp4'' then 40 else 0)
               + (if length (filter (\<lambda>c. c = CHR ''/'') (path ?b)) \<le> 1 then 100 else 0)"
    using findBestMovieFile_first_of_greatest_score [OF h, of ?b] by (rule conjunct2)
  also have "\<dots> = 750"
    unfolding listed_movie by code_simp
  finally have s: "scoreMovieFile ?b = 750" .
  have r: "findBestMovieFile [?a, ?b] = Some (?b, 750)"
    unfolding listed_sample listed_movie by code_simp
  from h s r show ?thesis by blast
qed

section \<open>Episode file selection\<close>

lemma foldl_choice_mem:
  assumes "\<And>a b. f a b = a \<or> f a b = b"
  shows "foldl f a xs \<in> insert a (set xs)"
proof (induction xs arbitrary: a)
  case Nil
  then show ?case by simp
next
  case (Cons x xs)
  from assms [of a x] Cons.IH [of "f a x"] show ?case by auto
qed

lemma reduce_choice_mem:
  assumes "\<And>a b. f a b = a \<or> f a b = b" and "xs \<noteq> []"
  shows "reduce f xs \<in> set xs"
proof -
  from assms(2) obtain y ys where xs: "xs = y # ys" by (cases xs) auto
  from foldl_choice_mem [of f y ys, OF assms(1)] show ?thesis
    by (simp add: reduce_def xs)
qed

lemma path_listed_file: "path (listed_file p mb) = p"
  by (simp add: listed_file_def file_of_content_def)

lemma isVideo_listed_file: "isVideo (listed_file p mb) = rx_test True videoExt p"
  by (simp add: listed_file_def file_of_content_def)

lemma find_first_index:
  assumes "\<exists>x \<in> set xs. P x"
  shows "\<exists>i<length xs. find P xs = Some (xs ! i) \<and> P (xs ! i) \<and> (\<forall>j<i. \<not> P (xs ! j))"
proof -
  from assms have "find P xs \<noteq> None" by (auto simp: find_None_iff)
  then obtain x where "find P xs = Some x" by blast
  then show ?thesis unfolding find_Some_iff by blast
qed

lemma findEpisodeFile_exact:
  assumes "\<exists>file \<in> set (filter isVideo files). exact_match s e file"
  shows "\<exists>i<length (filter isVideo files).
           findEpisodeFile files s e = Some (filter isVideo files ! i)
           \<and> exact_match s e (filter isVideo files ! i)
           \<and> (\<forall>j<i. \<not> exact_match s e (filter isVideo files ! j))"
proof -
  from find_first_index [OF assms] obtain i where i: "i < length (filter isVideo files)"
    and f: "find (exact_match s e) (filter isVideo files) = Some (filter isVideo files ! i)"
    and r: "exact_match s e (filter isVideo files ! i)"
           "\<forall>j<i. \<not> exact_match s e (filter isVideo files ! j)" by blast
  from f have "findEpisodeFile files s e = Some (filter isVideo files ! i)"
    by (simp add: findEpisodeFile_def)
  with i r show ?thesis by blast
qed

lemma findEpisodeFile_loose:
  assumes "\<forall>file \<in> set (filter isVideo files). \<not> exact_match s e file"
    and "\<exists>file \<in> set (filter isVideo files). loose_match s e file"
  shows "\<exists>i<length (filter isVideo files).
           findEpisodeFile files s e = Some (filter isVideo files ! i)
           \<and> loose_match s e (filter isVideo files ! i)
           \<and> (\<forall>j<i. \<not> loose_match s e (filter isVideo files ! j))"
proof -
  from assms(1) have n: "find (exact_match s e) (filter isVideo files) = None"
    by (simp add: find_None_iff)
  from find_first_index [OF assms(2)] obtain i where i: "i < length (filter isVideo files)"
    and f: "find (loose_match s e) (filter isVideo files) = Some (filter isVideo files ! i)"
    and r: "loose_match s e (filter isVideo files ! i)"
           "\<forall>j<i. \<not> loose_match s e (filter isVideo files ! j)" by blast
  from n f have "findEpisodeFile files s e = Some (filter isVideo files ! i)"
    by (simp add: findEpisodeFile_def)
  with i r show ?thesis by blast
qed

lemma findEpisodeFile_season_pack:
  assumes "\<forall>file \<in> set (filter isVideo files). \<not> exact_match s e file"
    and "\<forall>file \<in> set (filter isVideo files). \<not> loose_match s e file"
  shows "findEpisodeFile files s e =
           (if filter (season_match s) (filter isVideo files) = [] then None
            else Some (reduce (\<lambda>largest file.
                                 if size_f file > size_f largest then file else largest)
                              (filter (season_match s) (filter isVideo files))))"
proof -
  from assms(1) have n1: "find (exact_match s e) (filter isVideo files) = None"
    by (simp add: find_None_iff)
  from assms(2) have n2: "find (loose_match s e) (filter isVideo files) = None"
    by (simp add: find_None_iff)
  show ?thesis by (simp add: findEpisodeFile_def n1 n2)
qed

lemma exact_match_S02E05: "exact_match 2 5 (listed_file ''Show.S02E05.mkv'' mb)"
proof -
  have "list_ex (\<lambda>pattern. rx_test True pattern (toLowerCase ''Show.S02E05.mkv''))
          (episodePatterns 2 5)" by code_simp
  then show ?thesis by (simp add: exact_match_def path_listed_file)
qed

lemma isVideo_S02E05: "isVideo (listed_file ''Show.S02E05.mkv'' mb)"
proof -
  have "rx_test True videoExt ''Show.S02E05.mkv''" by code_simp
  then show ?thesis by (simp add: isVideo_listed_file)
qed

text \<open>
  C7: episode selection runs three ordered passes over the video files.  When some video
  file matches an exact pattern, the first such file is returned, whatever the loose and
  season patterns match; when none does and some file matches loosely, the first such file
  is returned; only when neither pass matches does the season-pack fallback decide.  For
  the files Show.S02E05.mkv and Show.S02E06.mkv, season 2 and episode 5, the first file is
  returned.
\<close>

theorem findEpisodeFile_three_ordered_passes:
  "((\<exists>file \<in> set (filter isVideo files). exact_match s e file) \<longrightarrow>
      (\<exists>i<length (filter isVideo files).
           findEpisodeFile files s e = Some (filter isVideo files ! i)
           \<and> exact_match s e (filter isVideo files ! i)
           \<and> (\<forall>j<i. \<not> exact_match s e (filter isVideo files ! j))))
   \<and> ((\<forall>file \<in> set (filter isVideo files). \<not> exact_match s e file)
        \<and> (\<exists>file \<in> set (filter isVideo files). loose_match s e file) \<longrightarrow>
      (\<exists>i<length (filter isVideo files).
           findEpisodeFile files s e = Some (filter isVideo files ! i)
           \<and> loose_match s e (filter isVideo files ! i)
           \<and> (\<forall>j<i. \<not> loose_match s e (filter isVideo files ! j))))
   \<and> ((\<forall>file \<in> set (filter isVideo files). \<not> exact_match s e file)
        \<and> (\<forall>file \<in> set (filter isVideo files). \<not> loose_match s e file) \<longrightarrow>
      findEpisodeFile files s e =
           (if filter (season_match s) (filter isVideo files) = [] then None
            else Some (reduce (\<lambda>largest file.
                                 if size_f file > size_f largest then file else largest)
                              (filter (season_match s) (filter isVideo files)))))
   \<and> findEpisodeFile [listed_file ''Show.S02E05.mkv'' a, listed_file ''Show.S02E06.mkv'' b] 2 5
        = Some (listed_file ''Show.S02E05.mkv'' a)"
proof -
  let ?f1 = "listed_file ''Show.S02E05.mkv'' a" and ?f2 = "listed_file ''Show.S02E06.mkv'' b"
  have "find (exact_match 2 5) (filter isVideo [?f1, ?f2]) = Some ?f1"
    by (simp add: isVideo_S02E05 exact_match_S02E05)
  then have "findEpisodeFile [?f1, ?f2] 2 5 = Some ?f1"
    by (simp add: findEpisodeFile_def)
  with findEpisodeFile_exact [of files s e] findEpisodeFile_loose [of files s e]
    findEpisodeFile_season_pack [of files s e]
  show ?thesis by blast
qed

theorem findEpisodeFile_three_ordered_passes_witness:
  "exact_match 2 5 (listed_file ''Show.S02E05.mkv'' 700)
   \<and> (\<exists>i<length (filter isVideo [listed_file ''Show.S02E05.mkv'' 700,
                                    listed_file ''Show.S02E06.mkv'' 700]).
         findEpisodeFile [listed_file ''Show.S02E05.mkv'' 700,
                          listed_file ''Show.S02E06.mkv'' 700] 2 5
           = Some (filter isVideo [listed_file ''Show.S02E05.mkv'' 700,
                                   listed_file ''Show.S02E06.mkv'' 700] ! i)
         \<and> exact_match 2 5 (filter isVideo [listed_file ''Show.S02E05.mkv'' 700,
                                              listed_file ''Show.S02E06.mkv'' 700] ! i))"
proof -
  let ?fs = "[listed_file ''Show.S02E05.mkv'' 700, listed_file ''Show.S02E06.mkv'' 700]"
  have m: "exact_match 2 5 (listed_file ''Show.S02E05.mkv'' 700)"
    by (rule exact_match_S02E05)
  then have ex: "\<exists>file \<in> set (filter isVideo ?fs). exact_match 2 5 file"
    by (simp add: isVideo_S02E05)
  from findEpisodeFile_three_ordered_passes [of ?fs 2 5] ex
  have "\<exists>i<length (filter isVideo ?fs).
           findEpisodeFile ?fs 2 5 = Some (filter isVideo ?fs ! i)
           \<and> exact_match 2 5 (filter isVideo ?fs ! i)
           \<and> (\<forall>j<i. \<not> exact_match 2 5 (filter isVideo ?fs ! j))" by blast
  with m show ?thesis by blast
qed

text \<open>
  C8: for the files Show.Season.3.Complete.mkv (8000 MB) and Show.Season.3.sample.mkv
  (10 MB), season 3 and episode 9, no pass matches: the season pattern wants white space
  or nothing between "season" and the number, and the names have a dot.  Selection
  returns no file.
\<close>

theorem findEpisodeFile_dotted_season_pack_not_found:
  "findEpisodeFile [listed_file ''Show.Season.3.Complete.mkv'' 8000,
                    listed_file ''Show.Season.3.sample.mkv'' 10] 3 9 = None"
  by code_simp

section \<open>The resolve endpoint: exhaustion\<close>

lemma url_attempt_found:
  "url_attempt r = Found u \<longleftrightarrow> r = Returns (Some u) \<and> u \<noteq> []"
  by (auto simp: url_attempt_def split: outcome.splits option.splits thrown.splits if_splits)

lemma getValidStreamingUrl_found:
  "getValidStreamingUrl service magnet h type season episode = Value (Some u) \<longleftrightarrow>
     (case s_class service of
        RealDebrid \<Rightarrow> s_getCachedUrl service magnet (Some type) season episode
      | TorBox \<Rightarrow> s_getStreamUrl service magnet None None None
      | Premiumize \<Rightarrow> s_getStreamUrl service magnet (Some type) season episode
      | OtherDebrid \<Rightarrow> s_getStreamUrl service magnet None None None) = Returns (Some u)
     \<and> u \<noteq> [] \<and> startsWith u ''http''"
  unfolding getValidStreamingUrl_def
  by (auto split: outcome.splits option.splits thrown.splits if_splits)

lemma try_service_found:
  "try_service contentType season episode service magnet h = Found u \<longleftrightarrow>
     issued_call contentType season episode service magnet = Returns (Some u)
     \<and> accepted service u"
proof (cases "or_else (s_name service) ''UnknownDebrid'' = ''Premiumize''")
  case True
  show ?thesis
  proof (cases "contentType = ''series'' \<and> truthy season \<and> truthy episode")
    case series: True
    with True show ?thesis
      by (simp add: try_service_def issued_call_def accepted_def Let_def url_attempt_found)
  next
    case False
    with True show ?thesis
      by (auto simp: try_service_def issued_call_def accepted_def Let_def url_attempt_found)
  qed
next
  case False
  have "try_service contentType season episode service magnet h = Found u \<longleftrightarrow>
          getValidStreamingUrl service magnet h contentType season episode = Value (Some u)
          \<and> u \<noteq> []"
    using False
    by (auto simp: try_service_def Let_def split: computed.splits option.splits if_splits)
  with False show ?thesis
    by (auto simp: getValidStreamingUrl_found issued_call_def accepted_def Let_def)
qed

lemma provider_gives_eq:
  "content_of_key (request_key request) = (contentType, season, episode) \<Longrightarrow>
     provider_gives request service magnet u \<longleftrightarrow>
       try_service contentType season episode service magnet h = Found u"
  by (simp add: provider_gives_def try_service_found)

lemma provider_fails_not_gives:
  "provider_fails request service magnet \<Longrightarrow> \<not> provider_gives request service magnet u"
  by (auto simp: provider_fails_def provider_gives_def
           split: prod.splits outcome.splits option.splits if_splits)

lemma accepted_not_empty: "accepted service u \<Longrightarrow> u \<noteq> []"
  by (auto simp: accepted_def split: if_splits)

lemma try_services_found:
  "try_services contentType season episode services magnet h = Found u \<Longrightarrow>
     \<exists>service \<in> set services.
        try_service contentType season episode service magnet h = Found u"
proof (induction services)
  case Nil
  then show ?case by simp
next
  case (Cons service rest)
  show ?case
  proof (cases "try_service contentType season episode service magnet h")
    case (Found v)
    with Cons.prems have "v = u" by simp
    with Found show ?thesis by simp
  next
    case Next
    with Cons.prems have "try_services contentType season episode rest magnet h = Found u"
      by simp
    from Cons.IH [OF this] show ?thesis by auto
  next
    case (Escapes m)
    with Cons.prems show ?thesis by simp
  qed
qed

lemma try_fallbacks_found:
  "try_fallbacks contentType season episode services fallbacks = Found u \<Longrightarrow>
     \<exists>service \<in> set services. \<exists>f \<in> set fallbacks.
        try_service contentType season episode service (fb_magnetLink f) (fb_hash f)
          = Found u"
proof (induction fallbacks)
  case Nil
  then show ?case by simp
next
  case (Cons f rest)
  show ?case
  proof (cases "try_services contentType season episode services (fb_magnetLink f) (fb_hash f)")
    case (Found v)
    with Cons.prems have "v = u" by simp
    with Found try_services_found [of contentType season episode services "fb_magnetLink f"
                                     "fb_hash f" u]
    show ?thesis by auto
  next
    case Next
    with Cons.prems have "try_fallbacks contentType season episode services rest = Found u"
      by simp
    from Cons.IH [OF this] show ?thesis by auto
  next
    case (Escapes m)
    with Cons.prems show ?thesis by simp
  qed
qed

lemma resolve_with_fallback_shape:
  "(\<exists>details. resolve_with_fallback services extractInfoHash parseQuality streamCache
                   (request_magnet request) (request_key request)
                 = Status404 ''Stream not available'' details)
   \<or> (\<exists>u. resolve_with_fallback services extractInfoHash parseQuality streamCache
                (request_magnet request) (request_key request) = Redirect u
          \<and> (\<exists>service \<in> set services.
                provider_gives request service (primary_magnet request) u
                \<or> (\<exists>f \<in> set (alternates extractInfoHash streamCache request).
                       provider_gives request service (fb_magnetLink f) u)))"
proof -
  let ?magnet = "request_magnet request"
  let ?cacheKey = "request_key request"
  obtain contentType season episode
    where k: "content_of_key ?cacheKey = (contentType, season, episode)"
    by (cases "content_of_key ?cacheKey") auto
  note gives = provider_gives_eq [OF k]
  show ?thesis
  proof (cases "extractInfoHash ?magnet")
    case (Threw message)
    then show ?thesis by (simp add: resolve_with_fallback_def k not_available_def)
  next
    case (Value r)
    show ?thesis
    proof (cases r)
      case None
      with Value show ?thesis by (simp add: resolve_with_fallback_def k not_available_def)
    next
      case (Some found)
      let ?h = "toLowerCase found"
      let ?m = "primary_magnet request"
      have m: "(case ?magnet of None \<Rightarrow> [] | Some m \<Rightarrow> m) = ?m"
        by (simp add: primary_magnet_def)
      show ?thesis
      proof (cases "?h = []")
        case True
        with Value Some show ?thesis
          by (simp add: resolve_with_fallback_def k not_available_def)
      next
        case False
        show ?thesis
        proof (cases "try_services contentType season episode services ?m ?h")
          case (Found u)
          from try_services_found [OF this]
          have "\<exists>service \<in> set services. provider_gives request service ?m u"
            unfolding gives [of _ ?m u ?h] .
          moreover from Found Value Some False
          have "resolve_with_fallback services extractInfoHash parseQuality streamCache
                  ?magnet ?cacheKey = Redirect u"
            by (simp add: resolve_with_fallback_def k m)
          ultimately show ?thesis by blast
        next
          case (Escapes message)
          with Value Some False show ?thesis
            by (simp add: resolve_with_fallback_def k m not_available_def)
        next
          case Next
          show ?thesis
          proof (cases "case ?cacheKey of None \<Rightarrow> None
                        | Some k \<Rightarrow> if k = [] then None else streamCache k")
            case None
            with Next Value Some False show ?thesis
              by (simp add: resolve_with_fallback_def k m not_available_def)
          next
            case cached: (Some cachedStreams)
            let ?fs = "js_sort (\<lambda>a b. parseQuality (fb_filename b)
                                              - parseQuality (fb_filename a))
                              (filter (\<lambda>stream. fb_hash stream \<noteq> ?h) cachedStreams)"
            from cached have "cached_streams streamCache request = cachedStreams"
              by (auto simp: cached_streams_def split: option.splits if_splits)
            with Value Some
            have alts: "alternates extractInfoHash streamCache request
                          = filter (\<lambda>stream. fb_hash stream \<noteq> ?h) cachedStreams"
              by (simp add: alternates_def)
            have sub: "set ?fs = set (alternates extractInfoHash streamCache request)"
              unfolding alts by (simp add: set_js_sort)
            show ?thesis
            proof (cases "try_fallbacks contentType season episode services ?fs")
              case (Found u)
              from try_fallbacks_found [OF this]
              obtain service f where sf: "service \<in> set services" "f \<in> set ?fs"
                "try_service contentType season episode service (fb_magnetLink f) (fb_hash f)
                   = Found u" by blast
              from sf(3) have "provider_gives request service (fb_magnetLink f) u"
                unfolding gives [of service "fb_magnetLink f" u "fb_hash f"] .
              with sf(1,2) sub
              have "\<exists>service \<in> set services.
                      \<exists>f \<in> set (alternates extractInfoHash streamCache request).
                        provider_gives request service (fb_magnetLink f) u" by blast
              moreover from Found cached Next Value Some False
              have "resolve_with_fallback services extractInfoHash parseQuality streamCache
                      ?magnet ?cacheKey = Redirect u"
                by (simp add: resolve_with_fallback_def k m Let_def)
              ultimately show ?thesis by blast
            next
              case (Escapes message)
              with cached Next Value Some False show ?thesis
                by (simp add: resolve_with_fallback_def k m not_available_def Let_def)
            next
              case fb: Next
              with cached Next Value Some False show ?thesis
                by (simp add: resolve_with_fallback_def k m not_available_def Let_def)
            qed
          qed
        qed
      qed
    qed
  qed
qed

lemma magnet_handler_shape:
  "(\<exists>details. magnet_handler services extractInfoHash parseQuality streamCache request
                 = Status404 ''Stream not available'' details)
   \<or> (\<exists>u. magnet_handler services extractInfoHash parseQuality streamCache request = Redirect u
          \<and> (\<exists>service \<in> set services.
                 provider_gives request service (primary_magnet request) u
                 \<or> (\<exists>f \<in> set (alternates extractInfoHash streamCache request).
                        provider_gives request service (fb_magnetLink f) u)))"
proof (cases "length services = 0")
  case True
  then show ?thesis by (simp add: magnet_handler_def not_available_def)
next
  case False
  show ?thesis
  proof (cases "\<exists>message. request = Undecodable message")
    case True
    with False show ?thesis by (auto simp: magnet_handler_def not_available_def)
  next
    case decoded: False
    have h: "magnet_handler services extractInfoHash parseQuality streamCache request
               = resolve_with_fallback services extractInfoHash parseQuality streamCache
                   (request_magnet request) (request_key request)"
      using False decoded
      by (cases request) (simp_all add: magnet_handler_def request_magnet_def request_key_def)
    from resolve_with_fallback_shape
           [of services extractInfoHash parseQuality streamCache request]
    show ?thesis unfolding h .
  qed
qed

lemma thrown_null_leaves_the_loop:
  "magnet_handler
     [constant_service ''Premiumize'' Premiumize (Raises Thrown_null),
      constant_service ''TorBox'' TorBox (Returns (Some ''http://tb/ok''))]
     hash_found (\<lambda>n. 0) one_alternate episode_request
   = Status404 ''Stream not available'' (Some (cannot_read ''null'' ''message''))"
  by code_simp

lemma failing_services_fail:
  "list_all (\<lambda>service.
       provider_fails episode_request service (primary_magnet episode_request)
       \<and> list_all (\<lambda>f. provider_fails episode_request service (fb_magnetLink f))
           (alternates hash_found one_alternate episode_request))
     failing_services"
  by code_simp

text \<open>
  C9: when every configured provider fails on the primary magnet link and on the magnet
  link of every alternate the handler tries (the entries stored under the cache key other
  than the primary hash; none when there is no fallback list), the handler answers status
  404 with the error "Stream not available".  A provider fails on a magnet link when the
  call the handler makes for it, with the content type, season and episode of the
  request, throws, returns \<open>null\<close> or an empty URL, or, outside the two Premiumize
  branches, returns a URL that does not start with \<open>http\<close>.  Every path of the handler
  ends in that response or in a redirect, and it redirects only to a non-empty URL that
  such a call returned and the handler took: no exception leaves the handler.
\<close>

theorem magnet_handler_exhausted_not_available:
  "((\<forall>service \<in> set debridServices.
        provider_fails request service (primary_magnet request)
        \<and> (\<forall>f \<in> set (alternates extractInfoHash streamCache request).
              provider_fails request service (fb_magnetLink f))) \<longrightarrow>
      (\<exists>details. magnet_handler debridServices extractInfoHash parseQuality streamCache request
                    = Status404 ''Stream not available'' details))
   \<and> ((\<exists>details. magnet_handler debridServices extractInfoHash parseQuality streamCache request
                    = Status404 ''Stream not available'' details)
        \<or> (\<exists>u. magnet_handler debridServices extractInfoHash parseQuality streamCache request
                   = Redirect u
               \<and> u \<noteq> []
               \<and> (\<exists>service \<in> set debridServices.
                      provider_gives request service (primary_magnet request) u
                      \<or> (\<exists>f \<in> set (alternates extractInfoHash streamCache request).
                             provider_gives request service (fb_magnetLink f) u))))"
proof -
  note shape = magnet_handler_shape
                 [of debridServices extractInfoHash parseQuality streamCache request]
  have not_empty: "u \<noteq> []" if "provider_gives request service magnet u"
    for service magnet u
    using that accepted_not_empty [of service u]
    by (auto simp: provider_gives_def split: prod.splits if_splits)
  have "\<exists>details. magnet_handler debridServices extractInfoHash parseQuality streamCache request
                    = Status404 ''Stream not available'' details"
    if fail: "\<forall>service \<in> set debridServices.
        provider_fails request service (primary_magnet request)
        \<and> (\<forall>f \<in> set (alternates extractInfoHash streamCache request).
              provider_fails request service (fb_magnetLink f))"
  proof (rule ccontr)
    assume "\<not> ?thesis"
    with shape obtain u service where u: "service \<in> set debridServices"
      "provider_gives request service (primary_magnet request) u
         \<or> (\<exists>f \<in> set (alternates extractInfoHash streamCache request).
                provider_gives request service (fb_magnetLink f) u)" by blast
    from fail u(1) have f: "provider_fails request service (primary_magnet request)"
      "\<forall>f \<in> set (alternates extractInfoHash streamCache request).
          provider_fails request service (fb_magnetLink f)"
      by blast+
    from u(2) f provider_fails_not_gives show False by blast
  qed
  moreover from shape not_empty
  have "(\<exists>details. magnet_handler debridServices extractInfoHash parseQuality streamCache request
                    = Status404 ''Stream not available'' details)
        \<or> (\<exists>u. magnet_handler debridServices extractInfoHash parseQuality streamCache request
                   = Redirect u
               \<and> u \<noteq> []
               \<and> (\<exists>service \<in> set debridServices.
                      provider_gives request service (primary_magnet request) u
                      \<or> (\<exists>f \<in> set (alternates extractInfoHash streamCache request).
                             provider_gives request service (fb_magnetLink f) u)))"
    by blast
  ultimately show ?thesis by blast
qed

theorem magnet_handler_exhausted_not_available_witness:
  "list_all (\<lambda>service.
       provider_fails episode_request service (primary_magnet episode_request)
       \<and> list_all (\<lambda>f. provider_fails episode_request service (fb_magnetLink f))
           (alternates hash_found one_alternate episode_request))
     failing_services
   \<and> map fb_magnetLink (alternates hash_found one_alternate episode_request)
        = [''magnet:?xt=urn:btih:cd34'']
   \<and> s_getStreamUrl episode_fails (primary_magnet episode_request) (Some ''movie'') None None
        = Returns (Some ''http://pm/ok'')
   \<and> magnet_handler failing_services hash_found (\<lambda>n. 0) one_alternate episode_request
       = Status404 ''Stream not available''
           (Some ''No cached stream available from any debrid service'')"
proof -
  have n: "\<forall>service \<in> set failing_services.
        provider_fails episode_request service (primary_magnet episode_request)
        \<and> (\<forall>f \<in> set (alternates hash_found one_alternate episode_request).
              provider_fails episode_request service (fb_magnetLink f))"
    using failing_services_fail unfolding list_all_iff .
  from magnet_handler_exhausted_not_available
         [of failing_services episode_request hash_found one_alternate "\<lambda>n. 0"] n
  obtain details where
    "magnet_handler failing_services hash_found (\<lambda>n. 0) one_alternate episode_request
       = Status404 ''Stream not available'' details" by blast
  moreover have
    "magnet_handler failing_services hash_found (\<lambda>n. 0) one_alternate episode_request
       = Status404 ''Stream not available''
           (Some ''No cached stream available from any debrid service'')"
    by code_simp
  moreover have "map fb_magnetLink (alternates hash_found one_alternate episode_request)
        = [''magnet:?xt=urn:btih:cd34'']"
    by code_simp
  moreover have
    "s_getStreamUrl episode_fails (primary_magnet episode_request) (Some ''movie'') None None
        = Returns (Some ''http://pm/ok'')"
    by code_simp
  ultimately show ?thesis using failing_services_fail by (intro conjI)
qed

end

